theory Spec2Isabelle
  imports Complex_Main "HOL-Library.Word"
begin

section \<open>Shared types (types.ts)\<close>

text \<open>
  JavaScript numbers that hold grid coordinates, sizes and counters are modelled as
  unbounded integers. An exception (the \<^verbatim>\<open>TypeError\<close> raised when a property of
  \<^verbatim>\<open>undefined\<close> is read or written) is the value \<open>None\<close> of an operation.
\<close>

record Position =
  col :: int
  row :: int

record GameParams =
  cols :: int
  rows :: int
  mines :: int

datatype GameStatus = Idle | Playing | Won | Lost

section \<open>Cells (simple-cell.ts)\<close>

text \<open>
  The stored fields of \<^verbatim>\<open>SimpleCell\<close>. The \<^verbatim>\<open>key\<close> field is \<^verbatim>\<open>createKey(position)\<close>,
  a function of the position, and is not stored. The five getters are functions of the
  stored fields. \<^verbatim>\<open>getData()\<close> copies the stored fields and the values of the getters
  into a fresh object: the copy is the record value itself.
\<close>

record SimpleCell =
  position :: Position
  isMine :: bool
  isRevealed :: bool
  isFlagged :: bool
  adjacentMines :: int

type_synonym CellData = SimpleCell

definition new_SimpleCell :: "Position \<Rightarrow> SimpleCell" where
  "new_SimpleCell p =
     \<lparr>position = p, isMine = False, isRevealed = False, isFlagged = False, adjacentMines = 0\<rparr>"

definition isEmpty :: "SimpleCell \<Rightarrow> bool" where
  "isEmpty c \<longleftrightarrow> \<not> isMine c \<and> adjacentMines c = 0"

definition isExploded :: "SimpleCell \<Rightarrow> bool" where
  "isExploded c \<longleftrightarrow> isMine c \<and> isRevealed c"

definition isMissed :: "SimpleCell \<Rightarrow> bool" where
  "isMissed c \<longleftrightarrow> isFlagged c \<and> \<not> isMine c"

definition notFoundMine :: "SimpleCell \<Rightarrow> bool" where
  "notFoundMine c \<longleftrightarrow> isMine c \<and> \<not> isFlagged c"

definition isUntouched :: "SimpleCell \<Rightarrow> bool" where
  "isUntouched c \<longleftrightarrow> \<not> isRevealed c \<and> \<not> isFlagged c"

definition getData :: "SimpleCell \<Rightarrow> CellData" where
  "getData c = c"

section \<open>Utilities (utils.ts)\<close>

text \<open>
  \<^verbatim>\<open>Array.from({ length: n }, ...)\<close> builds \<open>n\<close> elements, none when \<open>n \<le> 0\<close>.
\<close>

definition createGrid :: "int \<Rightarrow> int \<Rightarrow> (Position \<Rightarrow> 'a) \<Rightarrow> 'a list list" where
  "createGrid nrows ncols cb =
     map (\<lambda>r. map (\<lambda>c. cb \<lparr>col = int c, row = int r\<rparr>) [0..<nat ncols]) [0..<nat nrows]"

section \<open>The square field (base-field.ts, square-field.ts)\<close>

text \<open>
  The injected random source \<^verbatim>\<open>rng\<close> is a function with hidden state. It is modelled by
  the sequence of the numbers its future calls return (rationals; the product with the
  grid size is taken exactly); an operation that calls it returns the rest of the
  sequence. The field record therefore holds no \<^verbatim>\<open>rng\<close> component.

  A reference to a \<^verbatim>\<open>SimpleCell\<close> object of a grid is modelled by the cell's position:
  \<^verbatim>\<open>createGrid\<close> stores the cell of position \<open>(row, col)\<close> at \<^verbatim>\<open>grid[row][col]\<close>, and
  a clone keeps the positions. Reading a property through a reference reads the grid of
  the field at that position; writing a property updates the grid there.
\<close>

type_synonym rng = "nat \<Rightarrow> rat"

record SquareField =
  params :: GameParams
  grid :: "SimpleCell list list"
  isMined :: bool

text \<open>
  \<^verbatim>\<open>this.grid[row][col]\<close>: a \<^verbatim>\<open>TypeError\<close> (outer \<open>None\<close>) when \<^verbatim>\<open>grid[row]\<close> is
  \<^verbatim>\<open>undefined\<close>; the value \<^verbatim>\<open>undefined\<close> (inner \<open>None\<close>) when only the column is
  out of range.
\<close>

definition getCell :: "SquareField \<Rightarrow> Position \<Rightarrow> SimpleCell option option" where
  "getCell f p =
     (if 0 \<le> row p \<and> row p < int (length (grid f)) then
        Some (if 0 \<le> col p \<and> col p < int (length (grid f ! nat (row p)))
              then Some (grid f ! nat (row p) ! nat (col p)) else None)
      else None)"

text \<open>The cell whose property is then read or written: \<^verbatim>\<open>undefined\<close> raises there.\<close>

definition getCellObj :: "SquareField \<Rightarrow> Position \<Rightarrow> SimpleCell option" where
  "getCellObj f p = (case getCell f p of Some (Some c) \<Rightarrow> Some c | _ \<Rightarrow> None)"

definition getCellData :: "SquareField \<Rightarrow> Position \<Rightarrow> CellData option" where
  "getCellData f p = map_option getData (getCellObj f p)"

text \<open>Reading and writing through a reference that \<open>getCell\<close> or \<open>getSiblings\<close> returned.\<close>

definition cellAt :: "SquareField \<Rightarrow> Position \<Rightarrow> SimpleCell" where
  "cellAt f p = grid f ! nat (row p) ! nat (col p)"

definition modifyCell :: "SquareField \<Rightarrow> Position \<Rightarrow> (SimpleCell \<Rightarrow> SimpleCell) \<Rightarrow> SquareField" where
  "modifyCell f p g =
     f\<lparr>grid := (grid f)[nat (row p) := (grid f ! nat (row p))[nat (col p) := g (cellAt f p)]]\<rparr>"

definition isInBoundary :: "SquareField \<Rightarrow> Position \<Rightarrow> bool" where
  "isInBoundary f p \<longleftrightarrow>
     col p \<ge> 0 \<and> row p \<ge> 0 \<and> col p < cols (params f) \<and> row p < rows (params f)"

text \<open>
  The offsets \<open>(dx, dy)\<close> in the order of the two nested loops of \<^verbatim>\<open>getSiblings\<close>;
  \<open>dx\<close> is added to the column and \<open>dy\<close> to the row. A position inside the boundary
  whose cell is missing from the grid raises (in the source at \<^verbatim>\<open>grid[row][col]\<close> or, for
  an \<^verbatim>\<open>undefined\<close> element of the result, at the first property access of the caller,
  which every caller performs on every element).
\<close>

definition sibling_offsets :: "(int \<times> int) list" where
  "sibling_offsets = [(-1, -1), (-1, 0), (-1, 1), (0, -1), (0, 1), (1, -1), (1, 0), (1, 1)]"

definition sibling_positions :: "Position \<Rightarrow> Position list" where
  "sibling_positions p = map (\<lambda>(dx, dy). \<lparr>col = col p + dx, row = row p + dy\<rparr>) sibling_offsets"

definition getSiblings :: "SquareField \<Rightarrow> Position \<Rightarrow> Position list option" where
  "getSiblings f p =
     (let siblings = filter (isInBoundary f) (sibling_positions p)
      in if list_all (\<lambda>q. getCellObj f q \<noteq> None) siblings then Some siblings else None)"

definition new_SquareField :: "GameParams \<Rightarrow> CellData list list option \<Rightarrow> SquareField" where
  "new_SquareField ps data =
     (let g = (case data of
                 Some d \<Rightarrow> d
               | None \<Rightarrow> createGrid (rows ps) (cols ps) new_SimpleCell)
      in \<lparr>params = ps, grid = g, isMined = list_ex (list_ex isMine) g\<rparr>)"

definition cloneSelf :: "SquareField \<Rightarrow> SquareField" where
  "cloneSelf f = new_SquareField (params f) (Some (grid f))"

definition mineCell :: "SquareField \<Rightarrow> Position \<Rightarrow> SquareField option" where
  "mineCell f p =
     (case getCellObj f p of
        None \<Rightarrow> None
      | Some _ \<Rightarrow>
          let f1 = modifyCell f p (\<lambda>c. c\<lparr>isMine := True\<rparr>)
          in (case getSiblings f1 p of
                None \<Rightarrow> None
              | Some sibs \<Rightarrow>
                  Some (fold (\<lambda>s h. modifyCell h s (\<lambda>c. c\<lparr>adjacentMines := adjacentMines c + 1\<rparr>))
                          sibs f1)))"

definition unMineCell :: "SquareField \<Rightarrow> Position \<Rightarrow> SquareField option" where
  "unMineCell f p =
     (case getCellObj f p of
        None \<Rightarrow> None
      | Some _ \<Rightarrow>
          let f1 = modifyCell f p (\<lambda>c. c\<lparr>isMine := False\<rparr>)
          in (case getSiblings f1 p of
                None \<Rightarrow> None
              | Some sibs \<Rightarrow>
                  Some (fold (\<lambda>s h. modifyCell h s (\<lambda>c. c\<lparr>adjacentMines := adjacentMines c - 1\<rparr>))
                          sibs f1)))"

definition relocateMine :: "SquareField \<Rightarrow> Position \<Rightarrow> Position \<Rightarrow> SquareField option" where
  "relocateMine f from to =
     (case unMineCell f from of None \<Rightarrow> None | Some f1 \<Rightarrow> mineCell f1 to)"

text \<open>
  The rejection-sampling loop of \<^verbatim>\<open>placeMines\<close>. It need not terminate (a source that
  keeps returning a chosen position); not returning is the value \<open>None\<close>, as is the
  \<^verbatim>\<open>TypeError\<close> of \<^verbatim>\<open>mineCell\<close> at a position outside the grid. The column is drawn
  first, the row second. The set of keys \<^verbatim>\<open>avoidSet\<close> holds \<^verbatim>\<open>createKey(position)\<close>,
  which is one-to-one on integer positions, and is modelled by the positions.
\<close>

partial_function (option) placeMines_loop ::
  "rng \<Rightarrow> SquareField \<Rightarrow> Position list \<Rightarrow> int \<Rightarrow> (SquareField \<times> rng) option" where
  "placeMines_loop g f avoidSet minesPlacedCount =
     (if minesPlacedCount < mines (params f) then
        (if \<lparr>col = \<lfloor>g 0 * of_int (cols (params f))\<rfloor>,
             row = \<lfloor>g 1 * of_int (rows (params f))\<rfloor>\<rparr> \<notin> set avoidSet
         then
           (case mineCell f \<lparr>col = \<lfloor>g 0 * of_int (cols (params f))\<rfloor>,
                             row = \<lfloor>g 1 * of_int (rows (params f))\<rfloor>\<rparr> of
              None \<Rightarrow> None
            | Some f' \<Rightarrow>
                placeMines_loop (\<lambda>n. g (n + 2)) f'
                  (\<lparr>col = \<lfloor>g 0 * of_int (cols (params f))\<rfloor>,
                    row = \<lfloor>g 1 * of_int (rows (params f))\<rfloor>\<rparr> # avoidSet)
                  (minesPlacedCount + 1))
         else placeMines_loop (\<lambda>n. g (n + 2)) f avoidSet minesPlacedCount)
      else Some (f, g))"

declare placeMines_loop.simps [code]

definition placeMines :: "rng \<Rightarrow> SquareField \<Rightarrow> (SquareField \<times> rng) option" where
  "placeMines g f =
     (if isMined f then Some (f, g)
      else placeMines_loop g (f\<lparr>isMined := True\<rparr>) [] 0)"

text \<open>
  The breadth-first loop of \<^verbatim>\<open>getAreaToReveal\<close>. \<^verbatim>\<open>visited\<close> is a grid of booleans of
  \<open>rows\<close> rows, all false at first, read and written at \<^verbatim>\<open>[row][col]\<close> of the dequeued
  cell: it is modelled by the list of the positions set to true, and reading a row
  outside \<open>0..<rows\<close> raises. The queue and the result hold cell references.
\<close>

lemma finite_boundary: "finite {p. isInBoundary f p}"
proof -
  have "{p. isInBoundary f p} \<subseteq>
        (\<lambda>(c, r). \<lparr>col = c, row = r\<rparr>) ` ({0..<cols (params f)} \<times> {0..<rows (params f)})"
  proof
    fix p assume "p \<in> {p. isInBoundary f p}"
    then have "(col p, row p) \<in> {0..<cols (params f)} \<times> {0..<rows (params f)}"
      by (simp add: isInBoundary_def)
    moreover have "p = (\<lambda>(c, r). \<lparr>col = c, row = r\<rparr>) (col p, row p)" by simp
    ultimately show "p \<in> (\<lambda>(c, r). \<lparr>col = c, row = r\<rparr>) ` ({0..<cols (params f)} \<times> {0..<rows (params f)})"
      by (rule image_eqI[rotated])
  qed
  then show ?thesis by (rule finite_subset) simp
qed

lemma getSiblings_boundary: "getSiblings f p = Some sibs \<Longrightarrow> set sibs \<subseteq> {q. isInBoundary f q}"
  by (auto simp: getSiblings_def Let_def split: if_splits)

function area_loop ::
  "SquareField \<Rightarrow> Position list \<Rightarrow> Position list \<Rightarrow> Position list \<Rightarrow> Position list option" where
  "area_loop f [] visited result = Some result"
| "area_loop f (cell # queue) visited result =
     (if row cell < 0 \<or> rows (params f) \<le> row cell then None
      else if cell \<in> set visited then area_loop f queue visited result
      else if isEmpty (cellAt f cell) then
        (case getSiblings f cell of
           None \<Rightarrow> None
         | Some siblings \<Rightarrow> area_loop f (queue @ siblings) (cell # visited) (result @ [cell]))
      else area_loop f queue (cell # visited) (result @ [cell]))"
  by pat_completeness auto
termination
proof (relation "measures [\<lambda>(f, q, v, r). card (({p. isInBoundary f p} \<union> set q) - set v),
                           \<lambda>(f, q, v, r). length q]", goal_cases)
  case 1
  show ?case by simp
next
  case (2 f cell queue visited result)
  then have "({p. isInBoundary f p} \<union> set (cell # queue)) - set visited
           = ({p. isInBoundary f p} \<union> set queue) - set visited" by auto
  then show ?case by simp
next
  case (3 f cell queue visited result siblings)
  let ?B = "{p. isInBoundary f p}"
  from 3 have sub: "set siblings \<subseteq> ?B" by (auto dest: getSiblings_boundary)
  have fin: "finite ((?B \<union> set (cell # queue)) - set visited)"
    by (simp add: finite_boundary)
  have "(?B \<union> set (queue @ siblings)) - set (cell # visited)
        \<subset> (?B \<union> set (cell # queue)) - set visited"
    using 3 sub by auto
  then show ?case using fin by (simp add: psubset_card_mono)
next
  case (4 f cell queue visited result)
  let ?B = "{p. isInBoundary f p}"
  have fin: "finite ((?B \<union> set (cell # queue)) - set visited)"
    by (simp add: finite_boundary)
  have "(?B \<union> set queue) - set (cell # visited)
        \<subset> (?B \<union> set (cell # queue)) - set visited"
    using 4 by auto
  then show ?case using fin by (simp add: psubset_card_mono)
qed

definition getAreaToReveal :: "SquareField \<Rightarrow> Position \<Rightarrow> Position list option" where
  "getAreaToReveal f p =
     (case getCellObj f p of
        None \<Rightarrow> None
      | Some target \<Rightarrow>
          if \<not> isEmpty target \<or> isMine target then Some [p]
          else area_loop f [p] [] [])"

record FieldState =
  field :: "CellData list list"
  minedCells :: "CellData list"
  explodedCells :: "CellData list"
  flaggedCells :: "CellData list"
  notFoundMines :: "CellData list"
  errorFlags :: "CellData list"
  revealedCells :: "CellData list"

definition getState :: "SquareField \<Rightarrow> FieldState" where
  "getState f =
     (let d = map (map getData) (grid f)
      in \<lparr>field = d,
          minedCells = filter isMine (concat d),
          explodedCells = filter isExploded (concat d),
          flaggedCells = filter isFlagged (concat d),
          notFoundMines = filter notFoundMine (concat d),
          errorFlags = filter isMissed (concat d),
          revealedCells = filter isRevealed (concat d)\<rparr>)"

section \<open>The factory (field-factory.ts)\<close>

text \<open>The only field type is \<^verbatim>\<open>'square'\<close>; the configuration keeps the parameters and the
  optional saved grid. The random source is passed beside it.\<close>

record FactoryConfig =
  config_params :: GameParams
  config_data :: "CellData list list option"

definition FieldFactory_create :: "FactoryConfig \<Rightarrow> rng \<Rightarrow> (SquareField \<times> rng) option" where
  "FieldFactory_create config g =
     placeMines g (new_SquareField (config_params config) (config_data config))"

section \<open>The game engine (game-engine.ts)\<close>

record GameSnapshot = FieldState +
  status :: GameStatus

record ActionChanges =
  target :: "CellData option"
  handledCells :: "CellData list"
  delta_flaggedCells :: "CellData list"
  delta_unflaggedCells :: "CellData list"
  delta_revealedCells :: "CellData list"
  delta_explodedCells :: "CellData list"

record ActionData =
  actionSnapshot :: GameSnapshot
  actionChanges :: ActionChanges

record GameEngine =
  engine_params :: GameParams
  engine_field :: SquareField
  engine_status :: GameStatus
  flagsRemaining :: int

text \<open>
  \<^verbatim>\<open>apply\<close> is a closure over the engine object: it is the function from the state of
  the engine when it is invoked to the state it leaves.
\<close>

record ActionResult =
  applyAction :: "GameEngine \<Rightarrow> GameEngine"
  data :: ActionData

text \<open>\<^verbatim>\<open>Object.assign(state, { status })\<close>.\<close>

definition withStatus :: "FieldState \<Rightarrow> GameStatus \<Rightarrow> GameSnapshot" where
  "withStatus s st =
     \<lparr>field = field s, minedCells = minedCells s, explodedCells = explodedCells s,
      flaggedCells = flaggedCells s, notFoundMines = notFoundMines s,
      errorFlags = errorFlags s, revealedCells = revealedCells s, status = st\<rparr>"

definition new_GameEngine :: "FactoryConfig \<Rightarrow> rng \<Rightarrow> (GameEngine \<times> rng) option" where
  "new_GameEngine config g =
     (case FieldFactory_create config g of
        None \<Rightarrow> None
      | Some (f, g') \<Rightarrow>
          Some (\<lparr>engine_params = config_params config, engine_field = f,
                 engine_status = Idle, flagsRemaining = mines (config_params config)\<rparr>, g'))"

text \<open>
  \<^verbatim>\<open>cols * rows - mines\<close> is computed by the source on double-precision numbers and here
  on integers. The two agree when the parameters, the product and the difference are at
  most \<open>2 ^ 53\<close> in absolute value (\<open>safeIntegerParams\<close>): every integer of that range is a
  double, and a product or difference of that range is not rounded.
\<close>

definition safeIntegerParams :: "GameParams \<Rightarrow> bool" where
  "safeIntegerParams ps \<longleftrightarrow>
     \<bar>cols ps\<bar> \<le> 2 ^ 53 \<and> \<bar>rows ps\<bar> \<le> 2 ^ 53 \<and> \<bar>mines ps\<bar> \<le> 2 ^ 53 \<and>
     \<bar>cols ps * rows ps\<bar> \<le> 2 ^ 53 \<and> \<bar>cols ps * rows ps - mines ps\<bar> \<le> 2 ^ 53"

definition determineStatus :: "GameEngine \<Rightarrow> FieldState \<Rightarrow> GameStatus" where
  "determineStatus e resultState =
     (if length (explodedCells resultState) > 0 then Lost
      else if int (length (revealedCells resultState))
              = cols (engine_params e) * rows (engine_params e) - mines (engine_params e)
           then Won
      else Playing)"

definition getFlagsRemaining :: "GameEngine \<Rightarrow> FieldState \<Rightarrow> int" where
  "getFlagsRemaining e resultState =
     mines (engine_params e) - int (length (flaggedCells resultState))"

definition gameSnapshot :: "GameEngine \<Rightarrow> GameSnapshot" where
  "gameSnapshot e = withStatus (getState (engine_field e)) (engine_status e)"

text \<open>
  One round of the \<^verbatim>\<open>forEach\<close> of \<^verbatim>\<open>openArea\<close>; the state is the operated field with
  the two lists collected so far. \<^verbatim>\<open>cellData\<close> is copied before the cell is changed.
\<close>

definition openArea_step ::
  "Position \<Rightarrow> SquareField \<times> CellData list \<times> CellData list
     \<Rightarrow> SquareField \<times> CellData list \<times> CellData list" where
  "openArea_step cellToProcess s =
     (case s of (f, unflagged, revealed) \<Rightarrow>
        let cellData = getData (cellAt f cellToProcess);
            s1 = (if isFlagged (cellAt f cellToProcess)
                  then (modifyCell f cellToProcess (\<lambda>c. c\<lparr>isFlagged := False\<rparr>),
                        unflagged @ [cellData])
                  else (f, unflagged))
        in (if \<not> isRevealed (cellAt (fst s1) cellToProcess)
            then (modifyCell (fst s1) cellToProcess (\<lambda>c. c\<lparr>isRevealed := True\<rparr>),
                  snd s1, revealed @ [cellData])
            else (fst s1, snd s1, revealed)))"

text \<open>\<open>openArea\<close> returns the operated field with \<open>(unflaggedCells, revealedCells)\<close>.\<close>

definition openArea ::
  "Position \<Rightarrow> SquareField \<Rightarrow> (SquareField \<times> CellData list \<times> CellData list) option" where
  "openArea pos operatedField =
     (case getAreaToReveal operatedField pos of
        None \<Rightarrow> None
      | Some area \<Rightarrow> Some (fold openArea_step area (operatedField, [], [])))"

text \<open>
  The \<^verbatim>\<open>for\<close> loop over the siblings in \<^verbatim>\<open>handleRevealedClick\<close>. Each round reads the
  sibling as the rounds before it left it. The state is the operated field with
  \<open>(unflaggedCells, revealedCells, explodedCells)\<close>.
\<close>

fun chord_loop ::
  "Position list \<Rightarrow> SquareField \<Rightarrow> CellData list \<Rightarrow> CellData list \<Rightarrow> CellData list
     \<Rightarrow> (SquareField \<times> CellData list \<times> CellData list \<times> CellData list) option" where
  "chord_loop [] f unflagged revealed exploded =
     Some (f, unflagged, revealed, exploded)"
| "chord_loop (sibCell # rest) f unflagged revealed exploded =
     (if isFlagged (cellAt f sibCell) \<or> isRevealed (cellAt f sibCell)
      then chord_loop rest f unflagged revealed exploded
      else if isMine (cellAt f sibCell) \<and> \<not> isFlagged (cellAt f sibCell)
      then chord_loop rest (modifyCell f sibCell (\<lambda>c. c\<lparr>isRevealed := True\<rparr>))
             unflagged revealed
             (exploded
                @ [getData (cellAt (modifyCell f sibCell (\<lambda>c. c\<lparr>isRevealed := True\<rparr>)) sibCell)])
      else (case openArea sibCell f of
              None \<Rightarrow> None
            | Some (f', u, r) \<Rightarrow>
                chord_loop rest f' (unflagged @ u) (revealed @ r) exploded))"

text \<open>
  \<open>handleRevealedClick\<close> returns the operated field with
  \<open>(unflaggedCells, revealedCells, handledCells, explodedCells)\<close>.
\<close>

definition handleRevealedClick ::
  "CellData \<Rightarrow> SquareField
     \<Rightarrow> (SquareField \<times> CellData list \<times> CellData list \<times> CellData list \<times> CellData list) option" where
  "handleRevealedClick targetCell operatedField =
     (case getSiblings operatedField (position targetCell) of
        None \<Rightarrow> None
      | Some siblings \<Rightarrow>
          let closedSiblings = filter (\<lambda>s. isUntouched (cellAt operatedField s)) siblings;
              flags = length (filter (\<lambda>s. isFlagged (cellAt operatedField s)) siblings)
          in (if int flags = adjacentMines targetCell
              then (case chord_loop siblings operatedField [] [] [] of
                      None \<Rightarrow> None
                    | Some (f', unflagged, revealed, exploded) \<Rightarrow>
                        Some (f', unflagged, revealed,
                              map (\<lambda>s. getData (cellAt operatedField s)) closedSiblings,
                              exploded))
              else Some (operatedField, [], [], [], [])))"

text \<open>
  Step 1 of \<^verbatim>\<open>revealCell\<close>, taken when the status is \<open>Idle\<close>: the working status, the
  operated field and the rest of the random source.
\<close>

definition firstClick ::
  "SquareField \<Rightarrow> rng \<Rightarrow> Position \<Rightarrow> (GameStatus \<times> SquareField \<times> rng) option" where
  "firstClick operatedField g pos =
     (case (if \<not> isMined operatedField then placeMines g operatedField
            else Some (operatedField, g)) of
        None \<Rightarrow> None
      | Some (f1, g1) \<Rightarrow>
          (case getCellData f1 pos of
             None \<Rightarrow> None
           | Some d \<Rightarrow>
               if isMine d then
                 (case find (\<lambda>cell. \<not> isMine cell) (concat (grid f1)) of
                    None \<Rightarrow> Some (Lost, f1, g1)
                  | Some unminedCell \<Rightarrow>
                      (case relocateMine f1 pos (position unminedCell) of
                         None \<Rightarrow> None
                       | Some f2 \<Rightarrow> Some (Playing, f2, g1)))
               else Some (Playing, f1, g1)))"

text \<open>
  Step 2 of \<^verbatim>\<open>revealCell\<close> when the status is \<open>Playing\<close> and the target is not flagged:
  the operated field with \<open>(revealedCells, unflaggedCells, handledCells, explodedCells)\<close>.
\<close>

definition mainLogic ::
  "SimpleCell \<Rightarrow> Position \<Rightarrow> SquareField
     \<Rightarrow> (SquareField \<times> CellData list \<times> CellData list \<times> CellData list \<times> CellData list) option" where
  "mainLogic tgt pos operatedField =
     (let cellData = getData tgt
      in if isMine tgt then
           Some (modifyCell operatedField pos (\<lambda>c. c\<lparr>isRevealed := True\<rparr>),
                 [], [], [cellData], [cellData])
         else if isRevealed tgt then
           (case handleRevealedClick tgt operatedField of
              None \<Rightarrow> None
            | Some (f', unflagged, revealed, handled, exploded) \<Rightarrow>
                Some (f', revealed, unflagged, handled, exploded))
         else
           (case openArea pos operatedField of
              None \<Rightarrow> None
            | Some (f', unflagged, revealed) \<Rightarrow>
                Some (f', revealed, unflagged, [cellData], [])))"

definition revealCell :: "GameEngine \<Rightarrow> rng \<Rightarrow> Position \<Rightarrow> (ActionResult \<times> rng) option" where
  "revealCell e g pos =
     (case (if engine_status e = Idle then firstClick (cloneSelf (engine_field e)) g pos
            else Some (engine_status e, cloneSelf (engine_field e), g)) of
        None \<Rightarrow> None
      | Some (actionStatus, f1, g1) \<Rightarrow>
          (case getCell f1 pos of
             None \<Rightarrow> None
           | Some tgt \<Rightarrow>
               (case (if actionStatus = Playing then
                        (case tgt of
                           None \<Rightarrow> None
                         | Some t \<Rightarrow>
                             if \<not> isFlagged t then mainLogic t pos f1
                             else Some (f1, [], [], [], []))
                      else Some (f1, [], [], [], [])) of
                  None \<Rightarrow> None
                | Some (operatedField, revealed, unflagged, handled, exploded) \<Rightarrow>
                    Some (\<lparr>applyAction =
                             (\<lambda>this. this\<lparr>engine_status :=
                                               determineStatus e (getState operatedField),
                                            engine_field := operatedField,
                                            flagsRemaining :=
                                               getFlagsRemaining this (getState operatedField)\<rparr>),
                           data =
                             \<lparr>actionSnapshot =
                                withStatus (getState operatedField)
                                  (determineStatus e (getState operatedField)),
                              actionChanges =
                                \<lparr>target = getCellObj operatedField pos,
                                 handledCells = handled,
                                 delta_flaggedCells = [],
                                 delta_unflaggedCells = unflagged,
                                 delta_revealedCells = revealed,
                                 delta_explodedCells = exploded\<rparr>\<rparr>\<rparr>,
                          g1))))"

definition toggleFlag :: "GameEngine \<Rightarrow> Position \<Rightarrow> ActionResult option" where
  "toggleFlag e pos =
     (case getCellObj (cloneSelf (engine_field e)) pos of
        None \<Rightarrow> None
      | Some cell \<Rightarrow>
          let cellData = getData cell;
              r = (if engine_status e = Playing \<and> \<not> isRevealed cell then
                     (if isFlagged cell then
                        (modifyCell (cloneSelf (engine_field e)) pos (\<lambda>c. c\<lparr>isFlagged := False\<rparr>),
                         [], [cellData])
                      else if flagsRemaining e > 0 then
                        (modifyCell (cloneSelf (engine_field e)) pos (\<lambda>c. c\<lparr>isFlagged := True\<rparr>),
                         [cellData], [])
                      else (cloneSelf (engine_field e), [], []))
                   else (cloneSelf (engine_field e), [], []))
          in (case r of (operatedField, flagged, unflagged) \<Rightarrow>
                Some \<lparr>applyAction =
                        (\<lambda>this. this\<lparr>engine_field := operatedField,
                                       flagsRemaining :=
                                          getFlagsRemaining this (getState operatedField)\<rparr>),
                      data =
                        \<lparr>actionSnapshot = withStatus (getState operatedField) (engine_status e),
                         actionChanges =
                           \<lparr>target = Some cellData,
                            handledCells = [],
                            delta_flaggedCells = flagged,
                            delta_unflaggedCells = unflagged,
                            delta_revealedCells = [],
                            delta_explodedCells = []\<rparr>\<rparr>\<rparr>))"

section \<open>Well-formed fields\<close>

text \<open>
  A field is well formed when its grid has \<open>rows\<close> rows of \<open>cols\<close> cells and the cell
  at \<^verbatim>\<open>grid[row][col]\<close> stores the position \<open>(row, col)\<close>: what \<^verbatim>\<open>createGrid\<close> builds
  without saved data, and what every operation keeps.
\<close>

definition wf_field :: "SquareField \<Rightarrow> bool" where
  "wf_field f \<longleftrightarrow>
     map (map position) (grid f) = createGrid (rows (params f)) (cols (params f)) (\<lambda>p. p)"

text \<open>The siblings of a position in a well-formed field.\<close>

definition nbrs :: "SquareField \<Rightarrow> Position \<Rightarrow> Position list" where
  "nbrs f p = filter (isInBoundary f) (sibling_positions p)"

lemma wf_length: "wf_field f \<Longrightarrow> length (grid f) = nat (rows (params f))"
proof -
  assume "wf_field f"
  then have "length (map (map position) (grid f))
           = length (createGrid (rows (params f)) (cols (params f)) (\<lambda>p. p))"
    by (simp add: wf_field_def)
  then show ?thesis by (simp add: createGrid_def)
qed

lemma wf_row:
  assumes "wf_field f" "i < nat (rows (params f))"
  shows "map position (grid f ! i) = map (\<lambda>c. \<lparr>col = int c, row = int i\<rparr>) [0..<nat (cols (params f))]"
proof -
  have "map (map position) (grid f) ! i
      = createGrid (rows (params f)) (cols (params f)) (\<lambda>p. p) ! i"
    using assms by (simp add: wf_field_def)
  then show ?thesis using assms by (simp add: createGrid_def wf_length)
qed

lemma wf_row_length:
  assumes "wf_field f" "i < nat (rows (params f))"
  shows "length (grid f ! i) = nat (cols (params f))"
  using wf_row[OF assms] by (metis length_map length_upt minus_nat.diff_0)

lemma wf_position:
  assumes "wf_field f" "i < nat (rows (params f))" "j < nat (cols (params f))"
  shows "position (grid f ! i ! j) = \<lparr>col = int j, row = int i\<rparr>"
proof -
  have "map position (grid f ! i) ! j = map (\<lambda>c. \<lparr>col = int c, row = int i\<rparr>) [0..<nat (cols (params f))] ! j"
    using wf_row[OF assms(1,2)] by simp
  then show ?thesis using assms wf_row_length[OF assms(1,2)] by simp
qed

lemma boundary_nat:
  "isInBoundary f p \<Longrightarrow> nat (row p) < nat (rows (params f)) \<and> nat (col p) < nat (cols (params f))"
  by (auto simp: isInBoundary_def)

lemma getCell_boundary:
  assumes "wf_field f" "isInBoundary f p"
  shows "getCell f p = Some (Some (cellAt f p))"
  using assms boundary_nat[OF assms(2)] wf_row_length[OF assms(1), of "nat (row p)"]
  by (auto simp: getCell_def cellAt_def wf_length isInBoundary_def)

lemma getCellObj_boundary:
  "wf_field f \<Longrightarrow> isInBoundary f p \<Longrightarrow> getCellObj f p = Some (cellAt f p)"
  by (simp add: getCellObj_def getCell_boundary)

lemma getCellObj_outside:
  assumes "wf_field f" "\<not> isInBoundary f p"
  shows "getCellObj f p = None"
proof (cases "0 \<le> row p \<and> row p < rows (params f)")
  case True
  then have "nat (row p) < nat (rows (params f))" by auto
  from wf_row_length[OF assms(1) this] True assms show ?thesis
    by (auto simp: getCellObj_def getCell_def wf_length isInBoundary_def)
next
  case False
  then show ?thesis using assms by (auto simp: getCellObj_def getCell_def wf_length)
qed

lemma position_cellAt:
  assumes "wf_field f" "isInBoundary f p"
  shows "position (cellAt f p) = p"
  using wf_position[OF assms(1), of "nat (row p)" "nat (col p)"] boundary_nat[OF assms(2)] assms(2)
  by (simp add: cellAt_def isInBoundary_def)

lemma getSiblings_wf: "wf_field f \<Longrightarrow> getSiblings f p = Some (nbrs f p)"
  by (auto simp: getSiblings_def nbrs_def Let_def list_all_iff getCellObj_boundary)

lemma params_modifyCell [simp]: "params (modifyCell f p g) = params f"
  by (simp add: modifyCell_def)

lemma isMined_modifyCell [simp]: "isMined (modifyCell f p g) = isMined f"
  by (simp add: modifyCell_def)

lemma isInBoundary_modifyCell [simp]: "isInBoundary (modifyCell f p g) = isInBoundary f"
  by (simp add: isInBoundary_def fun_eq_iff)

lemma nbrs_modifyCell [simp]: "nbrs (modifyCell f p g) = nbrs f"
  by (simp add: nbrs_def fun_eq_iff)

lemma wf_modifyCell:
  assumes "wf_field f" "\<And>c. position (g c) = position c"
  shows "wf_field (modifyCell f p g)"
proof -
  have "map (map position) (grid (modifyCell f p g)) = map (map position) (grid f)"
    by (simp add: modifyCell_def map_update assms(2) cellAt_def list_update_same_conv
        flip: nth_map)
       (metis (no_types, lifting) list_update_beyond list_update_id map_update not_le_imp_less nth_map assms(2))
  then show ?thesis using assms(1) by (simp add: wf_field_def)
qed

lemma cellAt_modifyCell:
  assumes "wf_field f" "isInBoundary f p" "isInBoundary f q"
  shows "cellAt (modifyCell f p g) q = (if q = p then g (cellAt f p) else cellAt f q)"
proof -
  have rp: "nat (row p) < length (grid f)" and rq: "nat (row q) < length (grid f)"
    using assms boundary_nat by (simp_all add: wf_length)
  have cp: "nat (col p) < length (grid f ! nat (row p))"
    using assms boundary_nat wf_row_length by simp
  have eq: "q = p \<longleftrightarrow> nat (row q) = nat (row p) \<and> nat (col q) = nat (col p)"
    using assms(2,3) by (auto simp: isInBoundary_def)
  show ?thesis
    using rp rq cp eq by (auto simp: cellAt_def modifyCell_def nth_list_update)
qed

section \<open>Status after a reveal\<close>

lemma revealCell_snapshot:
  assumes "revealCell e g pos = Some (r, g')"
  shows "\<exists>f'. actionSnapshot (data r) = withStatus (getState f') (determineStatus e (getState f'))
            \<and> applyAction r = (\<lambda>this. this\<lparr>engine_status := determineStatus e (getState f'),
                                            engine_field := f',
                                            flagsRemaining := getFlagsRemaining this (getState f')\<rparr>)"
  using assms unfolding revealCell_def
  by (auto split: option.splits prod.splits if_splits)

definition cfg11 :: FactoryConfig where
  "cfg11 = \<lparr>config_params = \<lparr>cols = 1, rows = 1, mines = 0\<rparr>, config_data = None\<rparr>"

lemma new_GameEngine_cfg11:
  "new_GameEngine cfg11 g =
     Some (\<lparr>engine_params = \<lparr>cols = 1, rows = 1, mines = 0\<rparr>,
            engine_field = \<lparr>params = \<lparr>cols = 1, rows = 1, mines = 0\<rparr>,
                             grid = [[new_SimpleCell \<lparr>col = 0, row = 0\<rparr>]], isMined = True\<rparr>,
            engine_status = Idle, flagsRemaining = 0\<rparr>, g)"
  by (simp add: new_GameEngine_def cfg11_def FieldFactory_create_def new_SquareField_def
      createGrid_def placeMines_def placeMines_loop.simps new_SimpleCell_def)

definition cfg33 :: FactoryConfig where
  "cfg33 = \<lparr>config_params = \<lparr>cols = 3, rows = 3, mines = 1\<rparr>, config_data = None\<rparr>"

definition mkCell :: "int \<Rightarrow> int \<Rightarrow> bool \<Rightarrow> bool \<Rightarrow> bool \<Rightarrow> int \<Rightarrow> SimpleCell" where
  "mkCell r c m rv fl n =
     \<lparr>position = \<lparr>col = c, row = r\<rparr>, isMine = m, isRevealed = rv, isFlagged = fl,
      adjacentMines = n\<rparr>"

text \<open>The engine that \<open>new_GameEngine cfg33\<close> builds when the random source always returns 0:
  one mine, at \<open>(0, 0)\<close>.\<close>

definition engine33 :: GameEngine where
  "engine33 =
     \<lparr>engine_params = \<lparr>cols = 3, rows = 3, mines = 1\<rparr>,
      engine_field =
        \<lparr>params = \<lparr>cols = 3, rows = 3, mines = 1\<rparr>,
         grid = [[mkCell 0 0 True False False 0, mkCell 0 1 False False False 1,
                  mkCell 0 2 False False False 0],
                 [mkCell 1 0 False False False 1, mkCell 1 1 False False False 1,
                  mkCell 1 2 False False False 0],
                 [mkCell 2 0 False False False 0, mkCell 2 1 False False False 0,
                  mkCell 2 2 False False False 0]],
         isMined = True\<rparr>,
      engine_status = Idle, flagsRemaining = 1\<rparr>"

lemma new_GameEngine_cfg33: "map_option fst (new_GameEngine cfg33 (\<lambda>n. 0)) = Some engine33"
  by code_simp

text \<open>
  Claim C2. For an engine whose parameters are in the range where the arithmetic of the
  source is exact: after a \<open>revealCell\<close> action the status of the returned snapshot is
  \<open>Lost\<close> exactly when the snapshot has an exploded cell (a revealed mine); it is \<open>Won\<close>
  exactly when it has none and the number of revealed cells is \<open>rows * cols - mines\<close>;
  otherwise it is \<open>Playing\<close>. On the engine built for one row, one column and no mine,
  the first reveal of \<open>(0, 0)\<close> gives \<open>Won\<close>.
\<close>

theorem revealCell_status_determination:
  "(\<forall>e g pos r g'. safeIntegerParams (engine_params e) \<and>
      revealCell e g pos = Some (r, g') \<longrightarrow>
      explodedCells (actionSnapshot (data r))
        = filter (\<lambda>c. isMine c \<and> isRevealed c) (concat (field (actionSnapshot (data r)))) \<and>
      revealedCells (actionSnapshot (data r))
        = filter isRevealed (concat (field (actionSnapshot (data r)))) \<and>
      (status (actionSnapshot (data r)) = Lost
         \<longleftrightarrow> explodedCells (actionSnapshot (data r)) \<noteq> []) \<and>
      (status (actionSnapshot (data r)) = Won
         \<longleftrightarrow> explodedCells (actionSnapshot (data r)) = [] \<and>
             int (length (revealedCells (actionSnapshot (data r))))
               = rows (engine_params e) * cols (engine_params e) - mines (engine_params e)) \<and>
      (status (actionSnapshot (data r)) = Playing
         \<longleftrightarrow> explodedCells (actionSnapshot (data r)) = [] \<and>
             int (length (revealedCells (actionSnapshot (data r))))
               \<noteq> rows (engine_params e) * cols (engine_params e) - mines (engine_params e))) \<and>
   (\<forall>g. \<exists>e r. new_GameEngine cfg11 g = Some (e, g) \<and>
            revealCell e g \<lparr>col = 0, row = 0\<rparr> = Some (r, g) \<and>
            status (actionSnapshot (data r)) = Won)"
proof (intro conjI allI impI)
  fix e g pos r g'
  assume "safeIntegerParams (engine_params e) \<and> revealCell e g pos = Some (r, g')"
  then obtain f' where
    snap: "actionSnapshot (data r) = withStatus (getState f') (determineStatus e (getState f'))"
    using revealCell_snapshot by blast
  show "explodedCells (actionSnapshot (data r))
        = filter (\<lambda>c. isMine c \<and> isRevealed c) (concat (field (actionSnapshot (data r))))"
    by (simp add: snap withStatus_def getState_def Let_def isExploded_def [abs_def])
  show "revealedCells (actionSnapshot (data r))
        = filter isRevealed (concat (field (actionSnapshot (data r))))"
    by (simp add: snap withStatus_def getState_def Let_def)
  show "status (actionSnapshot (data r)) = Lost
         \<longleftrightarrow> explodedCells (actionSnapshot (data r)) \<noteq> []"
    by (simp add: snap withStatus_def determineStatus_def Let_def)
  show "status (actionSnapshot (data r)) = Won
         \<longleftrightarrow> explodedCells (actionSnapshot (data r)) = [] \<and>
             int (length (revealedCells (actionSnapshot (data r))))
               = rows (engine_params e) * cols (engine_params e) - mines (engine_params e)"
    by (simp add: snap withStatus_def determineStatus_def Let_def mult.commute)
  show "status (actionSnapshot (data r)) = Playing
         \<longleftrightarrow> explodedCells (actionSnapshot (data r)) = [] \<and>
             int (length (revealedCells (actionSnapshot (data r))))
               \<noteq> rows (engine_params e) * cols (engine_params e) - mines (engine_params e)"
    by (simp add: snap withStatus_def determineStatus_def Let_def mult.commute)
next
  fix g :: rng
  show "\<exists>e r. new_GameEngine cfg11 g = Some (e, g) \<and>
            revealCell e g \<lparr>col = 0, row = 0\<rparr> = Some (r, g) \<and>
            status (actionSnapshot (data r)) = Won"
    apply (simp add: new_GameEngine_cfg11)
    apply (simp add: revealCell_def firstClick_def cloneSelf_def new_SquareField_def new_SimpleCell_def
      placeMines_def placeMines_loop.simps getCellData_def getCellObj_def getCell_def getData_def
      mainLogic_def openArea_def getAreaToReveal_def isEmpty_def getSiblings_def
      sibling_positions_def sibling_offsets_def isInBoundary_def cellAt_def openArea_step_def
      modifyCell_def getState_def determineStatus_def withStatus_def isExploded_def)
    done
qed

lemma reveal33_evaluated:
  "map_option (\<lambda>(r, g'). (explodedCells (actionSnapshot (data r)),
                           length (revealedCells (actionSnapshot (data r)))))
     (revealCell engine33 (\<lambda>n. 0) \<lparr>col = 0, row = 0\<rparr>) = Some ([], 1)"
  by code_simp

theorem revealCell_status_determination_witness:
  "safeIntegerParams (engine_params engine33) \<and>
   (\<exists>r g'. revealCell engine33 (\<lambda>n. 0) \<lparr>col = 0, row = 0\<rparr> = Some (r, g') \<and>
      explodedCells (actionSnapshot (data r)) = [] \<and>
      length (revealedCells (actionSnapshot (data r))) = 1 \<and>
      status (actionSnapshot (data r)) = Playing)"
proof -
  have sp: "safeIntegerParams (engine_params engine33)"
    by (simp add: safeIntegerParams_def engine33_def)
  obtain r g' where rv: "revealCell engine33 (\<lambda>n. 0) \<lparr>col = 0, row = 0\<rparr> = Some (r, g')"
    using reveal33_evaluated by fastforce
  with reveal33_evaluated have ev: "explodedCells (actionSnapshot (data r)) = []"
    "length (revealedCells (actionSnapshot (data r))) = 1" by simp_all
  have "status (actionSnapshot (data r)) = Playing"
    using revealCell_status_determination [THEN conjunct1, rule_format, OF conjI, OF sp rv] ev
    by (simp add: engine33_def)
  with sp rv ev show ?thesis by blast
qed

section \<open>The grid as a function of the position\<close>

definition all_positions :: "SquareField \<Rightarrow> Position list" where
  "all_positions f = concat (createGrid (rows (params f)) (cols (params f)) (\<lambda>p. p))"

lemma grid_createGrid:
  assumes "wf_field f"
  shows "grid f = createGrid (rows (params f)) (cols (params f)) (cellAt f)"
proof (rule nth_equalityI)
  show "length (grid f) = length (createGrid (rows (params f)) (cols (params f)) (cellAt f))"
    using assms by (simp add: wf_length createGrid_def)
next
  fix i assume "i < length (grid f)"
  then have i: "i < nat (rows (params f))" using assms by (simp add: wf_length)
  have "grid f ! i = map (\<lambda>c. cellAt f \<lparr>col = int c, row = int i\<rparr>) [0..<nat (cols (params f))]"
    by (rule nth_equalityI) (simp_all add: wf_row_length[OF assms i] cellAt_def)
  then show "grid f ! i = createGrid (rows (params f)) (cols (params f)) (cellAt f) ! i"
    using i by (simp add: createGrid_def)
qed

lemma createGrid_map: "createGrid r c (\<lambda>p. h (k p)) = map (map h) (createGrid r c k)"
  by (simp add: createGrid_def comp_def)

lemma concat_grid:
  "wf_field f \<Longrightarrow> concat (grid f) = map (cellAt f) (all_positions f)"
  using grid_createGrid[of f] createGrid_map[of _ _ "cellAt f" "\<lambda>p. p"]
  by (simp add: all_positions_def map_concat)

lemma set_all_positions: "set (all_positions f) = {p. isInBoundary f p}"
proof -
  have "\<And>p. p \<in> set (all_positions f) \<longleftrightarrow> isInBoundary f p"
  proof -
    fix p :: Position
    obtain c r where p: "p = \<lparr>col = c, row = r\<rparr>" by (cases p) simp
    show "p \<in> set (all_positions f) \<longleftrightarrow> isInBoundary f p"
      unfolding p all_positions_def createGrid_def isInBoundary_def
      apply (auto)
      apply (rule_tac x="nat r" in bexI)
       apply (rule_tac x="nat c" in image_eqI)
      apply auto
      done
  qed
  then show ?thesis by auto
qed

lemma all_positions_product:
  "all_positions f = map (\<lambda>(r, c). \<lparr>col = int c, row = int r\<rparr>)
     (List.product [0..<nat (rows (params f))] [0..<nat (cols (params f))])"
  by (simp add: all_positions_def createGrid_def product_concat_map map_concat comp_def)

lemma distinct_all_positions: "distinct (all_positions f)"
  unfolding all_positions_product
  by (auto simp: distinct_map distinct_product inj_on_def)

lemma field_ext:
  assumes "wf_field f" "wf_field f'" "params f' = params f"
    and "\<And>p. isInBoundary f p \<Longrightarrow> cellAt f' p = cellAt f p"
  shows "grid f' = grid f"
proof -
  have "createGrid (rows (params f)) (cols (params f)) (cellAt f')
      = createGrid (rows (params f)) (cols (params f)) (cellAt f)"
    unfolding createGrid_def
    by (auto intro!: assms(4) simp: isInBoundary_def)
  then show ?thesis using grid_createGrid[OF assms(1)] grid_createGrid[OF assms(2)] assms(3) by simp
qed

section \<open>Siblings\<close>

lemma sibling_positions_iff:
  "q \<in> set (sibling_positions p) \<longleftrightarrow>
     q \<noteq> p \<and> \<bar>col q - col p\<bar> \<le> 1 \<and> \<bar>row q - row p\<bar> \<le> 1"
proof -
  obtain c r where q: "q = \<lparr>col = c, row = r\<rparr>" by (cases q) simp
  obtain c' r' where p: "p = \<lparr>col = c', row = r'\<rparr>" by (cases p) simp
  have "\<bar>c - c'\<bar> \<le> 1 \<longleftrightarrow> c = c' + -1 \<or> c = c' \<or> c = c' + 1"
       "\<bar>r - r'\<bar> \<le> 1 \<longleftrightarrow> r = r' + -1 \<or> r = r' \<or> r = r' + 1"
    by arith+
  then show ?thesis unfolding p q sibling_positions_def sibling_offsets_def
    by auto
qed

lemma sibling_positions_sym:
  "q \<in> set (sibling_positions p) \<longleftrightarrow> p \<in> set (sibling_positions q)"
  unfolding sibling_positions_iff by auto

lemma distinct_sibling_positions: "distinct (sibling_positions p)"
  by (simp add: sibling_positions_def sibling_offsets_def)

lemma nbrs_iff: "q \<in> set (nbrs f p) \<longleftrightarrow> isInBoundary f q \<and> q \<in> set (sibling_positions p)"
  by (auto simp: nbrs_def)

lemma distinct_nbrs: "distinct (nbrs f p)"
  by (simp add: nbrs_def distinct_sibling_positions)

lemma nbrs_boundary: "q \<in> set (nbrs f p) \<Longrightarrow> isInBoundary f q"
  by (simp add: nbrs_iff)

lemma nbrs_sym:
  "isInBoundary f p \<Longrightarrow> isInBoundary f q \<Longrightarrow> q \<in> set (nbrs f p) \<longleftrightarrow> p \<in> set (nbrs f q)"
  using sibling_positions_sym by (simp add: nbrs_iff)

lemma nbrs_irrefl: "p \<notin> set (nbrs f p)"
  by (simp add: nbrs_iff sibling_positions_iff)

section \<open>Writing through a list of references\<close>

lemma fold_modifyCell:
  assumes "wf_field f" "set ps \<subseteq> {p. isInBoundary f p}" "distinct ps"
    and g: "\<And>c. position (g c) = position c"
  shows "wf_field (fold (\<lambda>s h. modifyCell h s g) ps f) \<and>
         params (fold (\<lambda>s h. modifyCell h s g) ps f) = params f \<and>
         isMined (fold (\<lambda>s h. modifyCell h s g) ps f) = isMined f \<and>
         (\<forall>q. isInBoundary f q \<longrightarrow>
            cellAt (fold (\<lambda>s h. modifyCell h s g) ps f) q
              = (if q \<in> set ps then g (cellAt f q) else cellAt f q))"
  using assms(1-3)
proof (induction ps arbitrary: f)
  case Nil
  then show ?case by simp
next
  case (Cons a ps)
  define f1 where "f1 = modifyCell f a g"
  have wf1: "wf_field f1" unfolding f1_def using Cons.prems(1) g by (rule wf_modifyCell)
  have a: "isInBoundary f a" using Cons.prems(2) by simp
  have b1: "isInBoundary f1 = isInBoundary f" by (simp add: f1_def)
  have "set ps \<subseteq> {p. isInBoundary f1 p}" using Cons.prems(2) by (simp add: b1)
  moreover have "distinct ps" using Cons.prems(3) by simp
  ultimately have IH: "wf_field (fold (\<lambda>s h. modifyCell h s g) ps f1) \<and>
         params (fold (\<lambda>s h. modifyCell h s g) ps f1) = params f1 \<and>
         isMined (fold (\<lambda>s h. modifyCell h s g) ps f1) = isMined f1 \<and>
         (\<forall>q. isInBoundary f1 q \<longrightarrow>
            cellAt (fold (\<lambda>s h. modifyCell h s g) ps f1) q
              = (if q \<in> set ps then g (cellAt f1 q) else cellAt f1 q))"
    using Cons.IH[OF wf1] by blast
  have fold_eq: "fold (\<lambda>s h. modifyCell h s g) (a # ps) f = fold (\<lambda>s h. modifyCell h s g) ps f1"
    by (simp add: f1_def)
  have c1: "\<And>q. isInBoundary f q \<Longrightarrow> cellAt f1 q = (if q = a then g (cellAt f a) else cellAt f q)"
    unfolding f1_def by (rule cellAt_modifyCell[OF Cons.prems(1) a])
  have an: "a \<notin> set ps" using Cons.prems(3) by simp
  show ?case unfolding fold_eq
  proof (intro conjI allI impI)
    show "wf_field (fold (\<lambda>s h. modifyCell h s g) ps f1)" using IH by blast
    show "params (fold (\<lambda>s h. modifyCell h s g) ps f1) = params f" using IH by (simp add: f1_def)
    show "isMined (fold (\<lambda>s h. modifyCell h s g) ps f1) = isMined f" using IH by (simp add: f1_def)
    fix q assume q: "isInBoundary f q"
    then have "cellAt (fold (\<lambda>s h. modifyCell h s g) ps f1) q
              = (if q \<in> set ps then g (cellAt f1 q) else cellAt f1 q)"
      using IH b1 by simp
    then show "cellAt (fold (\<lambda>s h. modifyCell h s g) ps f1) q
          = (if q \<in> set (a # ps) then g (cellAt f q) else cellAt f q)"
      using an c1[OF q] by (cases "q = a") simp_all
  qed
qed

section \<open>Mining and unmining a cell\<close>

lemma mineCell_wf:
  assumes wf: "wf_field f" and p: "isInBoundary f p"
  shows "\<exists>f'. mineCell f p = Some f' \<and> wf_field f' \<and> params f' = params f \<and>
           isMined f' = isMined f \<and>
           (\<forall>q. isInBoundary f q \<longrightarrow>
              cellAt f' q = (cellAt f q)\<lparr>isMine := (q = p \<or> isMine (cellAt f q)),
                               adjacentMines := adjacentMines (cellAt f q)
                                  + (if q \<in> set (nbrs f p) then 1 else 0)\<rparr>)"
proof -
  define f1 where "f1 = modifyCell f p (\<lambda>c. c\<lparr>isMine := True\<rparr>)"
  define g where "g = (\<lambda>c::SimpleCell. c\<lparr>adjacentMines := adjacentMines c + 1\<rparr>)"
  define f2 where "f2 = fold (\<lambda>s h. modifyCell h s g) (nbrs f p) f1"
  have wf1: "wf_field f1" unfolding f1_def by (rule wf_modifyCell[OF wf]) simp
  have b1: "isInBoundary f1 = isInBoundary f" and n1: "nbrs f1 = nbrs f"
    by (simp_all add: f1_def)
  have c1: "\<And>q. isInBoundary f q \<Longrightarrow>
              cellAt f1 q = (if q = p then (cellAt f p)\<lparr>isMine := True\<rparr> else cellAt f q)"
    unfolding f1_def by (rule cellAt_modifyCell[OF wf p])
  have sub: "set (nbrs f p) \<subseteq> {q. isInBoundary f1 q}"
    by (auto simp: b1 nbrs_boundary)
  have F: "wf_field f2 \<and> params f2 = params f1 \<and> isMined f2 = isMined f1 \<and>
         (\<forall>q. isInBoundary f1 q \<longrightarrow>
            cellAt f2 q = (if q \<in> set (nbrs f p) then g (cellAt f1 q) else cellAt f1 q))"
    unfolding f2_def by (rule fold_modifyCell[OF wf1 sub distinct_nbrs]) (simp add: g_def)
  have gs: "getSiblings (modifyCell f p (\<lambda>c. c\<lparr>isMine := True\<rparr>)) p = Some (nbrs f p)"
    using getSiblings_wf[OF wf1, of p] n1 by (simp add: f1_def)
  have m: "mineCell f p = Some f2"
    by (simp add: mineCell_def getCellObj_boundary[OF wf p] Let_def gs f2_def f1_def g_def)
  have "\<And>q. isInBoundary f q \<Longrightarrow>
          cellAt f2 q = (cellAt f q)\<lparr>isMine := (q = p \<or> isMine (cellAt f q)),
                               adjacentMines := adjacentMines (cellAt f q)
                                  + (if q \<in> set (nbrs f p) then 1 else 0)\<rparr>"
  proof -
    fix q assume q: "isInBoundary f q"
    have "cellAt f2 q = (if q \<in> set (nbrs f p) then g (cellAt f1 q) else cellAt f1 q)"
      using F q b1 by simp
    then show "cellAt f2 q = (cellAt f q)\<lparr>isMine := (q = p \<or> isMine (cellAt f q)),
                               adjacentMines := adjacentMines (cellAt f q)
                                  + (if q \<in> set (nbrs f p) then 1 else 0)\<rparr>"
      using c1[OF q] nbrs_irrefl[of p f] by (cases "q = p") (auto simp: g_def)
  qed
  with m F show ?thesis by (simp add: f1_def)
qed

lemma unMineCell_wf:
  assumes wf: "wf_field f" and p: "isInBoundary f p"
  shows "\<exists>f'. unMineCell f p = Some f' \<and> wf_field f' \<and> params f' = params f \<and>
           isMined f' = isMined f \<and>
           (\<forall>q. isInBoundary f q \<longrightarrow>
              cellAt f' q = (cellAt f q)\<lparr>isMine := (q \<noteq> p \<and> isMine (cellAt f q)),
                               adjacentMines := adjacentMines (cellAt f q)
                                  - (if q \<in> set (nbrs f p) then 1 else 0)\<rparr>)"
proof -
  define f1 where "f1 = modifyCell f p (\<lambda>c. c\<lparr>isMine := False\<rparr>)"
  define g where "g = (\<lambda>c::SimpleCell. c\<lparr>adjacentMines := adjacentMines c - 1\<rparr>)"
  define f2 where "f2 = fold (\<lambda>s h. modifyCell h s g) (nbrs f p) f1"
  have wf1: "wf_field f1" unfolding f1_def by (rule wf_modifyCell[OF wf]) simp
  have b1: "isInBoundary f1 = isInBoundary f" and n1: "nbrs f1 = nbrs f"
    by (simp_all add: f1_def)
  have c1: "\<And>q. isInBoundary f q \<Longrightarrow>
              cellAt f1 q = (if q = p then (cellAt f p)\<lparr>isMine := False\<rparr> else cellAt f q)"
    unfolding f1_def by (rule cellAt_modifyCell[OF wf p])
  have sub: "set (nbrs f p) \<subseteq> {q. isInBoundary f1 q}"
    by (auto simp: b1 nbrs_boundary)
  have F: "wf_field f2 \<and> params f2 = params f1 \<and> isMined f2 = isMined f1 \<and>
         (\<forall>q. isInBoundary f1 q \<longrightarrow>
            cellAt f2 q = (if q \<in> set (nbrs f p) then g (cellAt f1 q) else cellAt f1 q))"
    unfolding f2_def by (rule fold_modifyCell[OF wf1 sub distinct_nbrs]) (simp add: g_def)
  have gs: "getSiblings (modifyCell f p (\<lambda>c. c\<lparr>isMine := False\<rparr>)) p = Some (nbrs f p)"
    using getSiblings_wf[OF wf1, of p] n1 by (simp add: f1_def)
  have m: "unMineCell f p = Some f2"
    by (simp add: unMineCell_def getCellObj_boundary[OF wf p] Let_def gs f2_def f1_def g_def)
  have "\<And>q. isInBoundary f q \<Longrightarrow>
          cellAt f2 q = (cellAt f q)\<lparr>isMine := (q \<noteq> p \<and> isMine (cellAt f q)),
                               adjacentMines := adjacentMines (cellAt f q)
                                  - (if q \<in> set (nbrs f p) then 1 else 0)\<rparr>"
  proof -
    fix q assume q: "isInBoundary f q"
    have "cellAt f2 q = (if q \<in> set (nbrs f p) then g (cellAt f1 q) else cellAt f1 q)"
      using F q b1 by simp
    then show "cellAt f2 q = (cellAt f q)\<lparr>isMine := (q \<noteq> p \<and> isMine (cellAt f q)),
                               adjacentMines := adjacentMines (cellAt f q)
                                  - (if q \<in> set (nbrs f p) then 1 else 0)\<rparr>"
      using c1[OF q] nbrs_irrefl[of p f] by (cases "q = p") (auto simp: g_def)
  qed
  with m F show ?thesis by (simp add: f1_def)
qed

section \<open>The adjacency invariant\<close>

text \<open>
  Invariant I1: the \<open>adjacentMines\<close> of every cell of the grid is the number of its
  siblings that are mines.
\<close>

definition adjacency_ok :: "SquareField \<Rightarrow> bool" where
  "adjacency_ok f \<longleftrightarrow>
     list_all (\<lambda>c. case getSiblings f (position c) of
                     None \<Rightarrow> False
                   | Some sibs \<Rightarrow>
                       adjacentMines c = int (length (filter (\<lambda>s. isMine (cellAt f s)) sibs)))
       (concat (grid f))"

definition minedNbrs :: "SquareField \<Rightarrow> Position \<Rightarrow> nat" where
  "minedNbrs f p = length (filter (\<lambda>s. isMine (cellAt f s)) (nbrs f p))"

lemma adjacency_ok_iff:
  assumes "wf_field f"
  shows "adjacency_ok f \<longleftrightarrow>
           (\<forall>p. isInBoundary f p \<longrightarrow> adjacentMines (cellAt f p) = int (minedNbrs f p))"
  unfolding adjacency_ok_def concat_grid[OF assms] list_all_iff minedNbrs_def
  using set_all_positions[of f]
  by (auto simp: position_cellAt[OF assms] getSiblings_wf[OF assms])

lemma count_insert:
  "distinct xs \<Longrightarrow> \<not> P p \<Longrightarrow>
     length (filter (\<lambda>s. s = p \<or> P s) xs) = length (filter P xs) + (if p \<in> set xs then 1 else 0)"
  by (induction xs) auto

lemma count_remove:
  "distinct xs \<Longrightarrow> P p \<Longrightarrow>
     int (length (filter (\<lambda>s. s \<noteq> p \<and> P s) xs))
       = int (length (filter P xs)) - (if p \<in> set xs then 1 else 0)"
  by (induction xs) auto

lemma minedNbrs_cong:
  assumes "params f' = params f" "\<And>q. isInBoundary f q \<Longrightarrow> isMine (cellAt f' q) = isMine (cellAt f q)"
  shows "minedNbrs f' p = minedNbrs f p"
proof -
  have "nbrs f' p = nbrs f p" using assms(1) by (simp add: nbrs_def isInBoundary_def [abs_def])
  moreover have "filter (\<lambda>s. isMine (cellAt f' s)) (nbrs f p) = filter (\<lambda>s. isMine (cellAt f s)) (nbrs f p)"
    by (rule filter_cong) (auto simp: assms(2) nbrs_boundary)
  ultimately show ?thesis by (simp add: minedNbrs_def)
qed

lemma mineCell_adjacency:
  assumes wf: "wf_field f" and p: "isInBoundary f p" and adj: "adjacency_ok f"
    and np: "\<not> isMine (cellAt f p)" and m: "mineCell f p = Some f'"
  shows "adjacency_ok f'"
proof -
  from mineCell_wf[OF wf p] m have wf': "wf_field f'" and ps: "params f' = params f"
    and c: "\<And>q. isInBoundary f q \<Longrightarrow>
              cellAt f' q = (cellAt f q)\<lparr>isMine := (q = p \<or> isMine (cellAt f q)),
                               adjacentMines := adjacentMines (cellAt f q)
                                  + (if q \<in> set (nbrs f p) then 1 else 0)\<rparr>"
    by auto
  have b: "isInBoundary f' = isInBoundary f" using ps by (simp add: isInBoundary_def [abs_def])
  have n: "nbrs f' = nbrs f" using b by (simp add: nbrs_def [abs_def])
  show ?thesis unfolding adjacency_ok_iff[OF wf']
  proof (intro allI impI)
    fix q assume "isInBoundary f' q"
    then have q: "isInBoundary f q" by (simp add: b)
    have "filter (\<lambda>s. isMine (cellAt f' s)) (nbrs f q)
        = filter (\<lambda>s. s = p \<or> isMine (cellAt f s)) (nbrs f q)"
      by (rule filter_cong) (auto simp: c nbrs_boundary)
    then have "minedNbrs f' q = minedNbrs f q + (if p \<in> set (nbrs f q) then 1 else 0)"
      unfolding minedNbrs_def n using count_insert[OF distinct_nbrs, of "\<lambda>s. isMine (cellAt f s)" p f q] np
      by simp
    moreover have "adjacentMines (cellAt f q) = int (minedNbrs f q)"
      using adj q by (simp add: adjacency_ok_iff[OF wf])
    moreover have "q \<in> set (nbrs f p) \<longleftrightarrow> p \<in> set (nbrs f q)" by (rule nbrs_sym[OF p q])
    ultimately show "adjacentMines (cellAt f' q) = int (minedNbrs f' q)"
      by (simp add: c[OF q])
  qed
qed

lemma unMineCell_adjacency:
  assumes wf: "wf_field f" and p: "isInBoundary f p" and adj: "adjacency_ok f"
    and np: "isMine (cellAt f p)" and m: "unMineCell f p = Some f'"
  shows "adjacency_ok f'"
proof -
  from unMineCell_wf[OF wf p] m have wf': "wf_field f'" and ps: "params f' = params f"
    and c: "\<And>q. isInBoundary f q \<Longrightarrow>
              cellAt f' q = (cellAt f q)\<lparr>isMine := (q \<noteq> p \<and> isMine (cellAt f q)),
                               adjacentMines := adjacentMines (cellAt f q)
                                  - (if q \<in> set (nbrs f p) then 1 else 0)\<rparr>"
    by auto
  have b: "isInBoundary f' = isInBoundary f" using ps by (simp add: isInBoundary_def [abs_def])
  have n: "nbrs f' = nbrs f" using b by (simp add: nbrs_def [abs_def])
  show ?thesis unfolding adjacency_ok_iff[OF wf']
  proof (intro allI impI)
    fix q assume "isInBoundary f' q"
    then have q: "isInBoundary f q" by (simp add: b)
    have "filter (\<lambda>s. isMine (cellAt f' s)) (nbrs f q)
        = filter (\<lambda>s. s \<noteq> p \<and> isMine (cellAt f s)) (nbrs f q)"
      by (rule filter_cong) (auto simp: c nbrs_boundary)
    then have "int (minedNbrs f' q) = int (minedNbrs f q) - (if p \<in> set (nbrs f q) then 1 else 0)"
      unfolding minedNbrs_def n using count_remove[OF distinct_nbrs, of "\<lambda>s. isMine (cellAt f s)" p f q] np
      by simp
    moreover have "adjacentMines (cellAt f q) = int (minedNbrs f q)"
      using adj q by (simp add: adjacency_ok_iff[OF wf])
    moreover have "q \<in> set (nbrs f p) \<longleftrightarrow> p \<in> set (nbrs f q)" by (rule nbrs_sym[OF p q])
    ultimately show "adjacentMines (cellAt f' q) = int (minedNbrs f' q)"
      by (simp add: c[OF q])
  qed
qed

section \<open>The number of mines\<close>

definition mineCount :: "SquareField \<Rightarrow> nat" where
  "mineCount f = length (filter isMine (concat (grid f)))"

lemma mineCount_positions:
  "wf_field f \<Longrightarrow> mineCount f = length (filter (\<lambda>p. isMine (cellAt f p)) (all_positions f))"
  by (simp add: mineCount_def concat_grid filter_map comp_def)

lemma all_positions_params: "params f' = params f \<Longrightarrow> all_positions f' = all_positions f"
  by (simp add: all_positions_def)

lemma isInBoundary_params: "params f' = params f \<Longrightarrow> isInBoundary f' = isInBoundary f"
  by (simp add: isInBoundary_def [abs_def])

lemma nbrs_params: "params f' = params f \<Longrightarrow> nbrs f' = nbrs f"
  using isInBoundary_params[of f' f] by (simp add: nbrs_def [abs_def])

lemma mineCell_count:
  assumes wf: "wf_field f" and p: "isInBoundary f p"
    and np: "\<not> isMine (cellAt f p)" and m: "mineCell f p = Some f'"
  shows "mineCount f' = mineCount f + 1"
proof -
  from mineCell_wf[OF wf p] m have wf': "wf_field f'" and ps: "params f' = params f"
    and c0: "\<And>q. isInBoundary f q \<Longrightarrow>
              cellAt f' q = (cellAt f q)\<lparr>isMine := (q = p \<or> isMine (cellAt f q)),
                               adjacentMines := adjacentMines (cellAt f q)
                                  + (if q \<in> set (nbrs f p) then 1 else 0)\<rparr>"
    by auto
  have c: "\<And>q. isInBoundary f q \<Longrightarrow> isMine (cellAt f' q) = (q = p \<or> isMine (cellAt f q))"
    by (simp add: c0)
  have "filter (\<lambda>q. isMine (cellAt f' q)) (all_positions f)
      = filter (\<lambda>q. q = p \<or> isMine (cellAt f q)) (all_positions f)"
    by (rule filter_cong) (auto simp: c set_all_positions)
  then show ?thesis
    using count_insert[OF distinct_all_positions, of "\<lambda>q. isMine (cellAt f q)" p f] np p
    by (simp add: mineCount_positions[OF wf] mineCount_positions[OF wf']
        all_positions_params[OF ps] set_all_positions)
qed

lemma unMineCell_count:
  assumes wf: "wf_field f" and p: "isInBoundary f p"
    and np: "isMine (cellAt f p)" and m: "unMineCell f p = Some f'"
  shows "int (mineCount f') = int (mineCount f) - 1"
proof -
  from unMineCell_wf[OF wf p] m have wf': "wf_field f'" and ps: "params f' = params f"
    and c0: "\<And>q. isInBoundary f q \<Longrightarrow>
              cellAt f' q = (cellAt f q)\<lparr>isMine := (q \<noteq> p \<and> isMine (cellAt f q)),
                               adjacentMines := adjacentMines (cellAt f q)
                                  - (if q \<in> set (nbrs f p) then 1 else 0)\<rparr>"
    by auto
  have c: "\<And>q. isInBoundary f q \<Longrightarrow> isMine (cellAt f' q) = (q \<noteq> p \<and> isMine (cellAt f q))"
    by (simp add: c0)
  have "filter (\<lambda>q. isMine (cellAt f' q)) (all_positions f)
      = filter (\<lambda>q. q \<noteq> p \<and> isMine (cellAt f q)) (all_positions f)"
    by (rule filter_cong) (auto simp: c set_all_positions)
  then show ?thesis
    using count_remove[OF distinct_all_positions, of "\<lambda>q. isMine (cellAt f q)" p f] np p
    by (simp add: mineCount_positions[OF wf] mineCount_positions[OF wf']
        all_positions_params[OF ps] set_all_positions)
qed

section \<open>Placing the mines\<close>

lemma placeMines_loop_inv:
  assumes "placeMines_loop g f avoidSet n = Some y"
  shows "wf_field f \<Longrightarrow> adjacency_ok f \<Longrightarrow>
     \<forall>p. isInBoundary f p \<longrightarrow> (isMine (cellAt f p) \<longleftrightarrow> p \<in> set avoidSet) \<Longrightarrow>
     int (mineCount f) = n \<Longrightarrow> n \<le> max 0 (mines (params f)) \<Longrightarrow>
         wf_field (fst y) \<and> adjacency_ok (fst y) \<and> params (fst y) = params f \<and>
         isMined (fst y) = isMined f \<and>
         int (mineCount (fst y)) = max 0 (mines (params f))"
  using assms
proof (induction g f avoidSet n y rule: placeMines_loop.raw_induct [rotated 1, consumes 1, case_names step])
  case (step loop g f avoidSet n y)
  note 1 = step
  let ?pos = "\<lparr>col = \<lfloor>g 0 * of_int (cols (params f))\<rfloor>, row = \<lfloor>g 1 * of_int (rows (params f))\<rfloor>\<rparr>"
  show ?case
  proof (cases "n < mines (params f)")
    case False
    with 1(2) have "y = (f, g)" by simp
    with False 1(3-) show ?thesis by auto
  next
    case lt: True
    show ?thesis
    proof (cases "?pos \<in> set avoidSet")
      case True
      with lt 1(2) have "loop (\<lambda>n. g (n + 2)) f avoidSet n = Some y" by simp
      from 1(1)[OF this 1(3-)] show ?thesis .
    next
      case False
      with lt 1(2) obtain f' where mc: "mineCell f ?pos = Some f'"
        and lp: "loop (\<lambda>n. g (n + 2)) f' (?pos # avoidSet) (n + 1) = Some y"
        by (auto split: option.splits)
      have inb: "isInBoundary f ?pos"
      proof (rule ccontr)
        assume "\<not> isInBoundary f ?pos"
        then have "mineCell f ?pos = None"
          using getCellObj_outside[OF 1(3)] by (simp add: mineCell_def)
        with mc show False by simp
      qed
      have nm: "\<not> isMine (cellAt f ?pos)" using 1(5) inb False by blast
      from mineCell_wf[OF 1(3) inb] mc have wf': "wf_field f'" and ps: "params f' = params f"
        and im: "isMined f' = isMined f"
        and c0: "\<And>q. isInBoundary f q \<Longrightarrow>
              cellAt f' q = (cellAt f q)\<lparr>isMine := (q = ?pos \<or> isMine (cellAt f q)),
                               adjacentMines := adjacentMines (cellAt f q)
                                  + (if q \<in> set (nbrs f ?pos) then 1 else 0)\<rparr>"
        by auto
      have c: "\<And>q. isInBoundary f q \<Longrightarrow> isMine (cellAt f' q) = (q = ?pos \<or> isMine (cellAt f q))"
        by (simp add: c0)
      have adj': "adjacency_ok f'" by (rule mineCell_adjacency[OF 1(3) inb 1(4) nm mc])
      have cnt: "int (mineCount f') = n + 1"
        using mineCell_count[OF 1(3) inb nm mc] 1(6) by simp
      have av: "\<forall>p. isInBoundary f' p \<longrightarrow> (isMine (cellAt f' p) \<longleftrightarrow> p \<in> set (?pos # avoidSet))"
        using 1(5) c by (auto simp: isInBoundary_params[OF ps])
      have le: "n + 1 \<le> max 0 (mines (params f'))" using lt ps by simp
      from 1(1)[OF lp wf' adj' av cnt le] show ?thesis by (simp add: ps im)
    qed
  qed
qed

lemma list_ex_mine: "list_ex (list_ex isMine) (grid f) \<longleftrightarrow> 0 < mineCount f"
  by (auto simp: mineCount_def list_ex_iff length_greater_0_conv filter_empty_conv
      simp del: length_greater_0_conv)

lemma mineCount_zero:
  "wf_field f \<Longrightarrow> mineCount f = 0 \<longleftrightarrow> (\<forall>p. isInBoundary f p \<longrightarrow> \<not> isMine (cellAt f p))"
  by (auto simp: mineCount_positions filter_empty_conv set_all_positions)

lemma wf_field_isMined_update [simp]: "wf_field (f\<lparr>isMined := b\<rparr>) = wf_field f"
  by (simp add: wf_field_def)

lemma cellAt_isMined_update [simp]: "cellAt (f\<lparr>isMined := b\<rparr>) = cellAt f"
  by (simp add: cellAt_def [abs_def])

lemma isInBoundary_isMined_update [simp]: "isInBoundary (f\<lparr>isMined := b\<rparr>) = isInBoundary f"
  by (simp add: isInBoundary_def [abs_def])

lemma mineCount_isMined_update [simp]: "mineCount (f\<lparr>isMined := b\<rparr>) = mineCount f"
  by (simp add: mineCount_def)

lemma getCellObj_isMined_update [simp]: "getCellObj (f\<lparr>isMined := b\<rparr>) = getCellObj f"
  by (rule ext) (simp add: getCellObj_def getCell_def)

lemma getSiblings_isMined_update [simp]: "getSiblings (f\<lparr>isMined := b\<rparr>) = getSiblings f"
  by (simp add: getSiblings_def [abs_def])

lemma adjacency_ok_isMined_update [simp]: "adjacency_ok (f\<lparr>isMined := b\<rparr>) = adjacency_ok f"
  by (simp add: adjacency_ok_def cong: option.case_cong)

lemma placeMines_inv:
  assumes pm: "placeMines g f = Some (f', g')"
    and wf: "wf_field f" and adj: "adjacency_ok f" and nm: "\<not> isMined f \<longrightarrow> mineCount f = 0"
  shows "wf_field f' \<and> adjacency_ok f' \<and> params f' = params f \<and> isMined f' \<and>
         int (mineCount f') = (if isMined f then int (mineCount f) else max 0 (mines (params f)))"
proof (cases "isMined f")
  case True
  with pm have "f' = f" by (simp add: placeMines_def)
  with True wf adj show ?thesis by simp
next
  case False
  with pm have lp: "placeMines_loop g (f\<lparr>isMined := True\<rparr>) [] 0 = Some (f', g')"
    by (simp add: placeMines_def)
  have z: "mineCount f = 0" using False nm by simp
  have "wf_field (fst (f', g')) \<and> adjacency_ok (fst (f', g')) \<and>
        params (fst (f', g')) = params (f\<lparr>isMined := True\<rparr>) \<and>
         isMined (fst (f', g')) = isMined (f\<lparr>isMined := True\<rparr>) \<and>
         int (mineCount (fst (f', g'))) = max 0 (mines (params (f\<lparr>isMined := True\<rparr>)))"
    apply (rule placeMines_loop_inv[OF lp])
    using wf adj z mineCount_zero[OF wf] by simp_all
  with False show ?thesis by simp
qed

lemma new_SquareField_fresh:
  "wf_field (new_SquareField ps None) \<and> adjacency_ok (new_SquareField ps None) \<and>
   params (new_SquareField ps None) = ps \<and> \<not> isMined (new_SquareField ps None) \<and>
   mineCount (new_SquareField ps None) = 0 \<and>
   (\<forall>p. isInBoundary (new_SquareField ps None) p \<longrightarrow>
      cellAt (new_SquareField ps None) p = new_SimpleCell p)"
proof -
  define f where "f = new_SquareField ps None"
  have g: "grid f = createGrid (rows ps) (cols ps) new_SimpleCell" and p: "params f = ps"
    by (simp_all add: f_def new_SquareField_def Let_def)
  have wf: "wf_field f"
    by (simp add: wf_field_def g p createGrid_def new_SimpleCell_def)
  have c: "\<And>q. isInBoundary f q \<Longrightarrow> cellAt f q = new_SimpleCell q"
  proof -
    fix q assume "isInBoundary f q"
    then show "cellAt f q = new_SimpleCell q"
      by (cases q) (simp add: cellAt_def g createGrid_def isInBoundary_def p)
  qed
  have nm: "mineCount f = 0"
    using c by (simp add: mineCount_zero[OF wf] new_SimpleCell_def)
  have im: "\<not> isMined f"
    using nm list_ex_mine[of f] by (simp add: f_def new_SquareField_def Let_def)
  have "adjacency_ok f"
    unfolding adjacency_ok_iff[OF wf] minedNbrs_def
    by (auto simp: c new_SimpleCell_def filter_empty_conv nbrs_boundary)
  with wf p im nm c show ?thesis unfolding f_def by blast
qed

lemma cloneSelf_wf:
  "cloneSelf f = f\<lparr>isMined := (0 < mineCount f)\<rparr>"
  by (simp add: cloneSelf_def new_SquareField_def Let_def list_ex_mine)

lemma relocateMine_wf:
  assumes wf: "wf_field f" and a: "isInBoundary f a" and b: "isInBoundary f b"
    and adj: "adjacency_ok f" and ma: "isMine (cellAt f a)" and mb: "\<not> isMine (cellAt f b)"
  shows "\<exists>f'. relocateMine f a b = Some f' \<and> wf_field f' \<and> params f' = params f \<and>
           isMined f' = isMined f \<and> adjacency_ok f' \<and> mineCount f' = mineCount f \<and>
           (\<forall>q. isInBoundary f q \<longrightarrow>
              isMine (cellAt f' q) = (q = b \<or> (q \<noteq> a \<and> isMine (cellAt f q))) \<and>
              isRevealed (cellAt f' q) = isRevealed (cellAt f q) \<and>
              isFlagged (cellAt f' q) = isFlagged (cellAt f q))"
proof -
  from unMineCell_wf[OF wf a] obtain f1 where u: "unMineCell f a = Some f1"
    and wf1: "wf_field f1" and p1: "params f1 = params f" and i1: "isMined f1 = isMined f"
    and c1: "\<And>q. isInBoundary f q \<Longrightarrow>
              cellAt f1 q = (cellAt f q)\<lparr>isMine := (q \<noteq> a \<and> isMine (cellAt f q)),
                               adjacentMines := adjacentMines (cellAt f q)
                                  - (if q \<in> set (nbrs f a) then 1 else 0)\<rparr>"
    by blast
  have b1: "isInBoundary f1 = isInBoundary f" by (rule isInBoundary_params[OF p1])
  have adj1: "adjacency_ok f1" by (rule unMineCell_adjacency[OF wf a adj ma u])
  have bb: "isInBoundary f1 b" using b by (simp add: b1)
  have mb1: "\<not> isMine (cellAt f1 b)" using mb by (simp add: c1[OF b])
  from mineCell_wf[OF wf1 bb] obtain f2 where m: "mineCell f1 b = Some f2"
    and wf2: "wf_field f2" and p2: "params f2 = params f1" and i2: "isMined f2 = isMined f1"
    and c2: "\<And>q. isInBoundary f1 q \<Longrightarrow>
              cellAt f2 q = (cellAt f1 q)\<lparr>isMine := (q = b \<or> isMine (cellAt f1 q)),
                               adjacentMines := adjacentMines (cellAt f1 q)
                                  + (if q \<in> set (nbrs f1 b) then 1 else 0)\<rparr>"
    by blast
  have adj2: "adjacency_ok f2" by (rule mineCell_adjacency[OF wf1 bb adj1 mb1 m])
  have cnt: "mineCount f2 = mineCount f"
    using unMineCell_count[OF wf a ma u] mineCell_count[OF wf1 bb mb1 m] by simp
  have r: "relocateMine f a b = Some f2" by (simp add: relocateMine_def u m)
  have "\<And>q. isInBoundary f q \<Longrightarrow>
              isMine (cellAt f2 q) = (q = b \<or> (q \<noteq> a \<and> isMine (cellAt f q))) \<and>
              isRevealed (cellAt f2 q) = isRevealed (cellAt f q) \<and>
              isFlagged (cellAt f2 q) = isFlagged (cellAt f q)"
    by (simp add: c2 b1 c1)
  with r wf2 p2 p1 i2 i1 adj2 cnt show ?thesis by auto
qed

section \<open>The area to reveal\<close>

text \<open>
  The connected region of empty cells around an origin: the cells reached from the
  origin by steps to an empty sibling. Its border is the set of the siblings of its
  cells.
\<close>

inductive_set region :: "SquareField \<Rightarrow> Position \<Rightarrow> Position set"
  for f :: SquareField and origin :: Position where
  origin: "origin \<in> region f origin"
| step: "q \<in> region f origin \<Longrightarrow> r \<in> set (nbrs f q) \<Longrightarrow> isEmpty (cellAt f r)
         \<Longrightarrow> r \<in> region f origin"

definition border :: "SquareField \<Rightarrow> Position \<Rightarrow> Position set" where
  "border f origin = (\<Union>q \<in> region f origin. set (nbrs f q))"

lemma region_empty:
  "q \<in> region f p \<Longrightarrow> isEmpty (cellAt f p) \<Longrightarrow> isEmpty (cellAt f q)"
  by (induction rule: region.induct) auto

lemma region_boundary:
  "q \<in> region f p \<Longrightarrow> isInBoundary f p \<Longrightarrow> isInBoundary f q"
  by (induction rule: region.induct) (auto simp: nbrs_boundary)

lemma border_boundary: "q \<in> border f p \<Longrightarrow> isInBoundary f q"
  by (auto simp: border_def nbrs_boundary)

lemma area_empty_region:
  "c \<in> region f p \<union> border f p \<Longrightarrow> isEmpty (cellAt f c) \<Longrightarrow> c \<in> region f p"
  by (auto simp: border_def intro: region.step)

lemma closed_covers:
  assumes pv: "p \<in> V" and pe: "isEmpty (cellAt f p)"
    and cl: "\<forall>v \<in> V. isEmpty (cellAt f v) \<longrightarrow> set (nbrs f v) \<subseteq> V"
  shows "region f p \<union> border f p \<subseteq> V"
proof -
  have r: "q \<in> region f p \<Longrightarrow> q \<in> V" for q
    by (induction rule: region.induct) (use pv pe cl in \<open>auto dest: region_empty\<close>)
  have "q \<in> border f p \<Longrightarrow> q \<in> V" for q
    using r cl region_empty[OF _ pe] by (fastforce simp: border_def)
  with r show ?thesis by auto
qed

lemma area_loop_correct:
  "wf_field f \<Longrightarrow> isInBoundary f p \<Longrightarrow> isEmpty (cellAt f p) \<Longrightarrow>
   set queue \<subseteq> region f p \<union> border f p \<Longrightarrow>
   set visited \<subseteq> region f p \<union> border f p \<Longrightarrow>
   set result = set visited \<Longrightarrow> distinct result \<Longrightarrow>
   \<forall>v \<in> set visited. isEmpty (cellAt f v) \<longrightarrow> set (nbrs f v) \<subseteq> set visited \<union> set queue \<Longrightarrow>
   p \<in> set visited \<union> set queue \<Longrightarrow>
   \<exists>area. area_loop f queue visited result = Some area \<and> distinct area \<and>
          set area = region f p \<union> border f p"
proof (induction f queue visited result rule: area_loop.induct)
  case (1 f visited result)
  have "region f p \<union> border f p \<subseteq> set visited"
    by (rule closed_covers[OF _ 1(3)]) (use 1 in auto)
  with 1 show ?case by auto
next
  case (2 f cell queue visited result)
  note wf = 2(4) and pb = 2(5) and pe = 2(6)
  let ?T = "region f p \<union> border f p"
  have cT: "cell \<in> ?T" using 2(7) by simp
  have cb: "isInBoundary f cell"
    using cT region_boundary[OF _ pb] border_boundary by auto
  have rowok: "\<not> (row cell < 0 \<or> rows (params f) \<le> row cell)"
    using cb by (auto simp: isInBoundary_def)
  show ?case
  proof (cases "cell \<in> set visited")
    case True
    have "\<exists>area. area_loop f queue visited result = Some area \<and> distinct area \<and> set area = ?T"
      by (rule 2(1)[OF rowok True wf pb pe]) (use 2(7-) True in auto)
    then show ?thesis using rowok True by simp
  next
    case nv: False
    show ?thesis
    proof (cases "isEmpty (cellAt f cell)")
      case True
      have gs: "getSiblings f cell = Some (nbrs f cell)" by (rule getSiblings_wf[OF wf])
      have creg: "cell \<in> region f p" by (rule area_empty_region[OF cT True])
      then have nb: "set (nbrs f cell) \<subseteq> ?T" by (auto simp: border_def)
      have "\<exists>area. area_loop f (queue @ nbrs f cell) (cell # visited) (result @ [cell]) = Some area
               \<and> distinct area \<and> set area = ?T"
        by (rule 2(2)[OF rowok nv True gs wf pb pe]) (use 2(7-) nb cT nv in auto)
      then show ?thesis using rowok nv True gs by simp
    next
      case False
      have "\<exists>area. area_loop f queue (cell # visited) (result @ [cell]) = Some area
               \<and> distinct area \<and> set area = ?T"
        by (rule 2(3)[OF rowok nv False wf pb pe]) (use 2(7-) cT nv False in auto)
      then show ?thesis using rowok nv False by simp
    qed
  qed
qed

lemma getAreaToReveal_empty:
  assumes wf: "wf_field f" and pb: "isInBoundary f p" and pe: "isEmpty (cellAt f p)"
  shows "\<exists>area. getAreaToReveal f p = Some area \<and> distinct area \<and>
           set area = region f p \<union> border f p"
proof -
  have "\<exists>area. area_loop f [p] [] [] = Some area \<and> distinct area \<and>
           set area = region f p \<union> border f p"
    by (rule area_loop_correct[OF wf pb pe]) (auto intro: region.origin)
  then show ?thesis
    using pe by (simp add: getAreaToReveal_def getCellObj_boundary[OF wf pb] isEmpty_def)
qed

lemma getAreaToReveal_single:
  assumes wf: "wf_field f" and pb: "isInBoundary f p" and pe: "\<not> isEmpty (cellAt f p)"
  shows "getAreaToReveal f p = Some [p]"
  using pe by (simp add: getAreaToReveal_def getCellObj_boundary[OF wf pb])

lemma no_mined_sibling:
  assumes wf: "wf_field f" and adj: "adjacency_ok f" and q: "isInBoundary f q"
    and e: "isEmpty (cellAt f q)" and r: "r \<in> set (nbrs f q)"
  shows "\<not> isMine (cellAt f r)"
proof -
  have "minedNbrs f q = 0"
    using adj q e by (simp add: adjacency_ok_iff[OF wf] isEmpty_def)
  then show ?thesis using r by (auto simp: minedNbrs_def filter_empty_conv)
qed

lemma area_no_mine:
  assumes wf: "wf_field f" and adj: "adjacency_ok f" and pb: "isInBoundary f p"
    and pe: "isEmpty (cellAt f p)" and c: "c \<in> region f p \<union> border f p"
  shows "\<not> isMine (cellAt f c)"
proof (cases "c \<in> region f p")
  case True
  then show ?thesis using region_empty[OF _ pe] by (auto simp: isEmpty_def)
next
  case False
  with c obtain q where q: "q \<in> region f p" and cq: "c \<in> set (nbrs f q)"
    by (auto simp: border_def)
  show ?thesis
    by (rule no_mined_sibling[OF wf adj region_boundary[OF q pb] region_empty[OF q pe] cq])
qed

lemma area_numbered:
  assumes wf: "wf_field f" and adj: "adjacency_ok f" and pb: "isInBoundary f p"
    and pe: "isEmpty (cellAt f p)" and c: "c \<in> border f p" and nr: "c \<notin> region f p"
  shows "\<not> isMine (cellAt f c) \<and> 0 < adjacentMines (cellAt f c)"
proof -
  have nm: "\<not> isMine (cellAt f c)" by (rule area_no_mine[OF wf adj pb pe]) (use c in simp)
  have "\<not> isEmpty (cellAt f c)" using area_empty_region[of c f p] c nr by auto
  with nm have "adjacentMines (cellAt f c) \<noteq> 0" by (simp add: isEmpty_def)
  moreover have "0 \<le> adjacentMines (cellAt f c)"
    using adj border_boundary[OF c] by (simp add: adjacency_ok_iff[OF wf])
  ultimately show ?thesis using nm by simp
qed

text \<open>The area depends on the mines and the numbers only, not on what is revealed or flagged.\<close>

definition same_mines :: "SquareField \<Rightarrow> SquareField \<Rightarrow> bool" where
  "same_mines f f' \<longleftrightarrow>
     params f' = params f \<and>
     (\<forall>p. isInBoundary f p \<longrightarrow>
        isMine (cellAt f' p) = isMine (cellAt f p) \<and>
        adjacentMines (cellAt f' p) = adjacentMines (cellAt f p))"

lemma area_loop_same_mines:
  "wf_field f \<Longrightarrow> wf_field f' \<Longrightarrow> same_mines f f' \<Longrightarrow> set queue \<subseteq> {p. isInBoundary f p} \<Longrightarrow>
   area_loop f' queue visited result = area_loop f queue visited result"
proof (induction f queue visited result rule: area_loop.induct)
  case (1 f visited result)
  then show ?case by simp
next
  case (2 f cell queue visited result)
  note wf = 2(4) and wf' = 2(5) and sm = 2(6)
  have ps: "params f' = params f" using sm by (simp add: same_mines_def)
  have cb: "isInBoundary f cell" using 2(7) by simp
  have e: "isEmpty (cellAt f' cell) = isEmpty (cellAt f cell)"
    using sm cb by (simp add: same_mines_def isEmpty_def)
  have gs: "getSiblings f cell = Some (nbrs f cell)" "getSiblings f' cell = Some (nbrs f cell)"
    using getSiblings_wf[OF wf] getSiblings_wf[OF wf'] nbrs_params[OF ps] by simp_all
  have rowok: "\<not> (row cell < 0 \<or> rows (params f) \<le> row cell)"
    using cb by (auto simp: isInBoundary_def)
  show ?case
  proof (cases "cell \<in> set visited")
    case True
    have "area_loop f' queue visited result = area_loop f queue visited result"
      by (rule 2(1)[OF rowok True wf wf' sm]) (use 2(7) in auto)
    then show ?thesis using rowok True ps by simp
  next
    case nv: False
    show ?thesis
    proof (cases "isEmpty (cellAt f cell)")
      case True
      have "area_loop f' (queue @ nbrs f cell) (cell # visited) (result @ [cell])
          = area_loop f (queue @ nbrs f cell) (cell # visited) (result @ [cell])"
        by (rule 2(2)[OF rowok nv True gs(1) wf wf' sm]) (use 2(7) in \<open>auto simp: nbrs_boundary\<close>)
      then show ?thesis using rowok nv True gs e ps by simp
    next
      case False
      have "area_loop f' queue (cell # visited) (result @ [cell])
          = area_loop f queue (cell # visited) (result @ [cell])"
        by (rule 2(3)[OF rowok nv False wf wf' sm]) (use 2(7) in auto)
      then show ?thesis using rowok nv False e ps by simp
    qed
  qed
qed

lemma getAreaToReveal_same_mines:
  assumes wf: "wf_field f" and wf': "wf_field f'" and sm: "same_mines f f'"
    and pb: "isInBoundary f p"
  shows "getAreaToReveal f' p = getAreaToReveal f p"
proof -
  have ps: "params f' = params f" using sm by (simp add: same_mines_def)
  have pb': "isInBoundary f' p" using pb by (simp add: isInBoundary_params[OF ps])
  have "area_loop f' [p] [] [] = area_loop f [p] [] []"
    by (rule area_loop_same_mines[OF wf wf' sm]) (use pb in simp)
  then show ?thesis
    using sm pb
    by (simp add: getAreaToReveal_def getCellObj_boundary[OF wf pb]
        getCellObj_boundary[OF wf' pb'] same_mines_def isEmpty_def)
qed

text \<open>
  Claim C4. In a well-formed field, for an origin inside the boundary: when the origin
  is empty, \<open>getAreaToReveal\<close> returns, without repetition, exactly the connected region
  of empty cells around the origin together with the siblings of its cells, and, the
  adjacency invariant given, each returned cell outside the region is a numbered cell
  that is no mine; when the origin is a mine or a numbered cell, it returns the origin
  alone. The result is the same in every field with the same mines and numbers, whatever
  is revealed or flagged.
\<close>

theorem getAreaToReveal_totality:
  assumes "wf_field f" and "isInBoundary f p"
  shows "(isEmpty (cellAt f p) \<longrightarrow>
            (\<exists>area. getAreaToReveal f p = Some area \<and> distinct area \<and>
                set area = region f p \<union> border f p \<and>
                (\<forall>q \<in> region f p. isEmpty (cellAt f q)) \<and>
                (adjacency_ok f \<longrightarrow>
                   (\<forall>c \<in> border f p - region f p.
                      \<not> isMine (cellAt f c) \<and> 0 < adjacentMines (cellAt f c))))) \<and>
         (\<not> isEmpty (cellAt f p) \<longrightarrow> getAreaToReveal f p = Some [p]) \<and>
         (\<forall>f'. wf_field f' \<and> same_mines f f' \<longrightarrow> getAreaToReveal f' p = getAreaToReveal f p)"
proof (intro conjI impI allI)
  assume pe: "isEmpty (cellAt f p)"
  from getAreaToReveal_empty[OF assms pe] obtain area where
    a: "getAreaToReveal f p = Some area" "distinct area" "set area = region f p \<union> border f p"
    by blast
  have r: "\<forall>q \<in> region f p. isEmpty (cellAt f q)" using region_empty[OF _ pe] by blast
  have "adjacency_ok f \<longrightarrow>
          (\<forall>c \<in> border f p - region f p. \<not> isMine (cellAt f c) \<and> 0 < adjacentMines (cellAt f c))"
    using area_numbered[OF assms(1) _ assms(2) pe] by blast
  with a r show "\<exists>area. getAreaToReveal f p = Some area \<and> distinct area \<and>
                set area = region f p \<union> border f p \<and>
                (\<forall>q \<in> region f p. isEmpty (cellAt f q)) \<and>
                (adjacency_ok f \<longrightarrow>
                   (\<forall>c \<in> border f p - region f p.
                      \<not> isMine (cellAt f c) \<and> 0 < adjacentMines (cellAt f c)))"
    by blast
next
  assume "\<not> isEmpty (cellAt f p)"
  then show "getAreaToReveal f p = Some [p]" by (rule getAreaToReveal_single[OF assms])
next
  fix f' assume "wf_field f' \<and> same_mines f f'"
  then show "getAreaToReveal f' p = getAreaToReveal f p"
    using getAreaToReveal_same_mines[OF assms(1) _ _ assms(2)] by blast
qed

lemma field33_wf: "wf_field (engine_field engine33)"
  by code_simp

lemma field33_adjacency: "adjacency_ok (engine_field engine33)"
  by code_simp

lemma field33_area:
  "getAreaToReveal (engine_field engine33) \<lparr>col = 2, row = 2\<rparr>
     = Some [\<lparr>col = 2, row = 2\<rparr>, \<lparr>col = 1, row = 1\<rparr>, \<lparr>col = 1, row = 2\<rparr>,
             \<lparr>col = 2, row = 1\<rparr>, \<lparr>col = 0, row = 1\<rparr>, \<lparr>col = 0, row = 2\<rparr>,
             \<lparr>col = 1, row = 0\<rparr>, \<lparr>col = 2, row = 0\<rparr>]"
  by code_simp

theorem getAreaToReveal_totality_witness:
  "region (engine_field engine33) \<lparr>col = 2, row = 2\<rparr>
     \<union> border (engine_field engine33) \<lparr>col = 2, row = 2\<rparr>
   = {\<lparr>col = 2, row = 2\<rparr>, \<lparr>col = 1, row = 1\<rparr>, \<lparr>col = 1, row = 2\<rparr>,
      \<lparr>col = 2, row = 1\<rparr>, \<lparr>col = 0, row = 2\<rparr>, \<lparr>col = 0, row = 1\<rparr>,
      \<lparr>col = 2, row = 0\<rparr>, \<lparr>col = 1, row = 0\<rparr>} \<and>
   getAreaToReveal (engine_field engine33) \<lparr>col = 0, row = 1\<rparr> = Some [\<lparr>col = 0, row = 1\<rparr>]"
proof -
  have b: "isInBoundary (engine_field engine33) \<lparr>col = 2, row = 2\<rparr>"
    "isInBoundary (engine_field engine33) \<lparr>col = 0, row = 1\<rparr>" by code_simp+
  have e: "isEmpty (cellAt (engine_field engine33) \<lparr>col = 2, row = 2\<rparr>)"
    "\<not> isEmpty (cellAt (engine_field engine33) \<lparr>col = 0, row = 1\<rparr>)" by code_simp+
  show ?thesis
    using getAreaToReveal_totality[OF field33_wf b(1)] getAreaToReveal_totality[OF field33_wf b(2)]
      e field33_area
    by auto
qed

section \<open>Opening an area\<close>

definition opened :: "SimpleCell \<Rightarrow> SimpleCell" where
  "opened c = c\<lparr>isFlagged := False, isRevealed := True\<rparr>"

text \<open>The set of the cells that \<open>getAreaToReveal\<close> returns.\<close>

definition areaSet :: "SquareField \<Rightarrow> Position \<Rightarrow> Position set" where
  "areaSet f p = (if isEmpty (cellAt f p) then region f p \<union> border f p else {p})"

lemma getAreaToReveal_areaSet:
  assumes "wf_field f" "isInBoundary f p"
  shows "\<exists>area. getAreaToReveal f p = Some area \<and> distinct area \<and> set area = areaSet f p"
  using getAreaToReveal_empty[OF assms] getAreaToReveal_single[OF assms]
  by (cases "isEmpty (cellAt f p)") (auto simp: areaSet_def)

lemma areaSet_boundary: "isInBoundary f p \<Longrightarrow> q \<in> areaSet f p \<Longrightarrow> isInBoundary f q"
  using region_boundary border_boundary by (auto simp: areaSet_def split: if_splits)

lemma areaSet_self: "p \<in> areaSet f p"
  by (auto simp: areaSet_def intro: region.origin)

lemma openArea_step_wf:
  assumes wf: "wf_field f" and c: "isInBoundary f c"
  shows "\<exists>f'. openArea_step c (f, u, r)
              = (f', u @ (if isFlagged (cellAt f c) then [cellAt f c] else []),
                     r @ (if \<not> isRevealed (cellAt f c) then [cellAt f c] else [])) \<and>
           wf_field f' \<and> params f' = params f \<and> isMined f' = isMined f \<and>
           (\<forall>q. isInBoundary f q \<longrightarrow>
              cellAt f' q = (if q = c then opened (cellAt f c) else cellAt f q))"
proof -
  define f1 where "f1 = (if isFlagged (cellAt f c)
                         then modifyCell f c (\<lambda>c. c\<lparr>isFlagged := False\<rparr>) else f)"
  define f2 where "f2 = (if \<not> isRevealed (cellAt f1 c)
                         then modifyCell f1 c (\<lambda>c. c\<lparr>isRevealed := True\<rparr>) else f1)"
  have wf1: "wf_field f1" and p1: "params f1 = params f" and i1: "isMined f1 = isMined f"
    using wf by (auto simp: f1_def intro: wf_modifyCell)
  have c1: "\<And>q. isInBoundary f q \<Longrightarrow>
              cellAt f1 q = (if q = c then (cellAt f c)\<lparr>isFlagged := False\<rparr> else cellAt f q)"
    by (auto simp: f1_def cellAt_modifyCell[OF wf c])
  have b1: "isInBoundary f1 = isInBoundary f" by (rule isInBoundary_params[OF p1])
  have cb1: "isInBoundary f1 c" using c by (simp add: b1)
  have wf2: "wf_field f2" and p2: "params f2 = params f" and i2: "isMined f2 = isMined f"
    using wf1 p1 i1 by (auto simp: f2_def intro: wf_modifyCell)
  have c2: "\<And>q. isInBoundary f q \<Longrightarrow>
              cellAt f2 q = (if q = c then opened (cellAt f c) else cellAt f q)"
    using c by (auto simp: f2_def cellAt_modifyCell[OF wf1 cb1] b1 c1 opened_def)
  have rv: "isRevealed (cellAt f1 c) = isRevealed (cellAt f c)" using c by (simp add: c1)
  have "openArea_step c (f, u, r)
              = (f2, u @ (if isFlagged (cellAt f c) then [cellAt f c] else []),
                     r @ (if \<not> isRevealed (cellAt f c) then [cellAt f c] else []))"
    unfolding openArea_step_def Let_def getData_def f2_def f1_def
    using cellAt_modifyCell[OF wf c c, of "\<lambda>c. c\<lparr>isFlagged := False\<rparr>"]
    by (cases "isFlagged (cellAt f c)"; cases "isRevealed (cellAt f c)") simp_all
  with wf2 p2 i2 c2 show ?thesis by blast
qed

lemma map_filter_agree:
  "(\<And>q. q \<in> set xs \<Longrightarrow> h' q = h q) \<Longrightarrow>
     map h' (filter (\<lambda>c. P (h' c)) xs) = map h (filter (\<lambda>c. P (h c)) xs)"
  by (induction xs) auto

lemma fold_openArea_step:
  "wf_field f \<Longrightarrow> set area \<subseteq> {p. isInBoundary f p} \<Longrightarrow> distinct area \<Longrightarrow>
     \<exists>f'. fold openArea_step area (f, u, r)
              = (f', u @ map (cellAt f) (filter (\<lambda>c. isFlagged (cellAt f c)) area),
                     r @ map (cellAt f) (filter (\<lambda>c. \<not> isRevealed (cellAt f c)) area)) \<and>
           wf_field f' \<and> params f' = params f \<and> isMined f' = isMined f \<and>
           (\<forall>q. isInBoundary f q \<longrightarrow>
              cellAt f' q = (if q \<in> set area then opened (cellAt f q) else cellAt f q))"
proof (induction area arbitrary: f u r)
  case Nil
  then show ?case by simp
next
  case (Cons c area)
  have cb: "isInBoundary f c" using Cons.prems(2) by simp
  from openArea_step_wf[OF Cons.prems(1) cb, of u r] obtain f1 where
    s: "openArea_step c (f, u, r)
              = (f1, u @ (if isFlagged (cellAt f c) then [cellAt f c] else []),
                     r @ (if \<not> isRevealed (cellAt f c) then [cellAt f c] else []))"
    and wf1: "wf_field f1" and p1: "params f1 = params f" and i1: "isMined f1 = isMined f"
    and c1: "\<And>q. isInBoundary f q \<Longrightarrow>
              cellAt f1 q = (if q = c then opened (cellAt f c) else cellAt f q)"
    by blast
  have b1: "isInBoundary f1 = isInBoundary f" by (rule isInBoundary_params[OF p1])
  have sub: "set area \<subseteq> {p. isInBoundary f1 p}" using Cons.prems(2) by (simp add: b1)
  have d: "distinct area" and cn: "c \<notin> set area" using Cons.prems(3) by simp_all
  from Cons.IH[OF wf1 sub d] obtain f2 where
    s2: "fold openArea_step area (f1, u @ (if isFlagged (cellAt f c) then [cellAt f c] else []),
                     r @ (if \<not> isRevealed (cellAt f c) then [cellAt f c] else []))
          = (f2, (u @ (if isFlagged (cellAt f c) then [cellAt f c] else []))
                    @ map (cellAt f1) (filter (\<lambda>c. isFlagged (cellAt f1 c)) area),
                 (r @ (if \<not> isRevealed (cellAt f c) then [cellAt f c] else []))
                    @ map (cellAt f1) (filter (\<lambda>c. \<not> isRevealed (cellAt f1 c)) area))"
    and wf2: "wf_field f2" and p2: "params f2 = params f1" and i2: "isMined f2 = isMined f1"
    and c2: "\<And>q. isInBoundary f1 q \<Longrightarrow>
              cellAt f2 q = (if q \<in> set area then opened (cellAt f1 q) else cellAt f1 q)"
    by blast
  have same: "\<And>q. q \<in> set area \<Longrightarrow> cellAt f1 q = cellAt f q"
    using Cons.prems(2) cn by (auto simp: c1)
  have m1: "map (cellAt f1) (filter (\<lambda>c. isFlagged (cellAt f1 c)) area)
          = map (cellAt f) (filter (\<lambda>c. isFlagged (cellAt f c)) area)"
    by (rule map_filter_agree) (rule same)
  have m2: "map (cellAt f1) (filter (\<lambda>c. \<not> isRevealed (cellAt f1 c)) area)
          = map (cellAt f) (filter (\<lambda>c. \<not> isRevealed (cellAt f c)) area)"
    by (rule map_filter_agree[where P="\<lambda>x. \<not> isRevealed x"]) (rule same)
  have cc: "\<And>q. isInBoundary f q \<Longrightarrow>
              cellAt f2 q = (if q \<in> set (c # area) then opened (cellAt f q) else cellAt f q)"
  proof -
    fix q assume q: "isInBoundary f q"
    then have "cellAt f2 q = (if q \<in> set area then opened (cellAt f1 q) else cellAt f1 q)"
      using c2 by (simp add: b1)
    then show "cellAt f2 q = (if q \<in> set (c # area) then opened (cellAt f q) else cellAt f q)"
      using c1[OF q] cn by (cases "q = c") auto
  qed
  have "fold openArea_step (c # area) (f, u, r)
      = (f2, u @ map (cellAt f) (filter (\<lambda>c. isFlagged (cellAt f c)) (c # area)),
             r @ map (cellAt f) (filter (\<lambda>c. \<not> isRevealed (cellAt f c)) (c # area)))"
    by (simp add: s s2 m1 m2)
  with wf2 p2 p1 i2 i1 cc show ?case by auto
qed

lemma opened_simps [simp]:
  "isMine (opened c) = isMine c" "adjacentMines (opened c) = adjacentMines c"
  "position (opened c) = position c" "isRevealed (opened c)" "\<not> isFlagged (opened c)"
  "opened (opened c) = opened c"
  by (simp_all add: opened_def)

lemma openArea_wf:
  assumes wf: "wf_field f" and pb: "isInBoundary f p"
  shows "\<exists>f' area. getAreaToReveal f p = Some area \<and> distinct area \<and> set area = areaSet f p \<and>
           openArea p f = Some (f', map (cellAt f) (filter (\<lambda>c. isFlagged (cellAt f c)) area),
                                   map (cellAt f) (filter (\<lambda>c. \<not> isRevealed (cellAt f c)) area)) \<and>
           wf_field f' \<and> params f' = params f \<and> isMined f' = isMined f \<and>
           (\<forall>q. isInBoundary f q \<longrightarrow>
              cellAt f' q = (if q \<in> areaSet f p then opened (cellAt f q) else cellAt f q))"
proof -
  from getAreaToReveal_areaSet[OF wf pb] obtain area where
    a: "getAreaToReveal f p = Some area" "distinct area" "set area = areaSet f p" by blast
  have sub: "set area \<subseteq> {p. isInBoundary f p}"
    using a(3) areaSet_boundary[OF pb] by auto
  from fold_openArea_step[OF wf sub a(2), of "[]" "[]"] a show ?thesis
    by (auto simp: openArea_def)
qed

lemma region_trans:
  "y \<in> region f x \<Longrightarrow> x \<in> region f m \<Longrightarrow> y \<in> region f m"
  by (induction rule: region.induct) (auto intro: region.step)

lemma areaSet_closed:
  assumes "x \<in> areaSet f m"
  shows "areaSet f x \<subseteq> areaSet f m"
proof (cases "isEmpty (cellAt f x)")
  case False
  then show ?thesis using assms by (simp add: areaSet_def)
next
  case True
  with assms have me: "isEmpty (cellAt f m)" by (auto simp: areaSet_def split: if_splits)
  with assms True have xr: "x \<in> region f m" by (auto simp: areaSet_def intro: area_empty_region)
  then have "region f x \<subseteq> region f m" using region_trans by blast
  then show ?thesis using True me by (auto simp: areaSet_def border_def)
qed

lemma areaSet_no_mine:
  assumes wf: "wf_field f" and adj: "adjacency_ok f" and pb: "isInBoundary f p"
    and nm: "\<not> isMine (cellAt f p)" and c: "c \<in> areaSet f p"
  shows "\<not> isMine (cellAt f c)"
  using c nm area_no_mine[OF wf adj pb] by (auto simp: areaSet_def split: if_splits)

lemma areaSet_same_mines:
  assumes wf: "wf_field f" and wf': "wf_field f'" and sm: "same_mines f f'"
    and pb: "isInBoundary f p"
  shows "areaSet f' p = areaSet f p"
proof -
  have ps: "params f' = params f" using sm by (simp add: same_mines_def)
  have pb': "isInBoundary f' p" using pb by (simp add: isInBoundary_params[OF ps])
  from getAreaToReveal_areaSet[OF wf pb] getAreaToReveal_areaSet[OF wf' pb']
    getAreaToReveal_same_mines[OF wf wf' sm pb]
  show ?thesis by auto
qed

text \<open>The cells a chord opens: the areas of the untouched siblings.\<close>

definition chordSet :: "SquareField \<Rightarrow> Position list \<Rightarrow> Position set" where
  "chordSet f ns = (\<Union>n \<in> {n \<in> set ns. isUntouched (cellAt f n)}. areaSet f n)"

lemma chordSet_Cons:
  "chordSet f (n # ns) = (if isUntouched (cellAt f n) then areaSet f n else {}) \<union> chordSet f ns"
  by (auto simp: chordSet_def)

lemma chord_loop_inv:
  assumes wf0: "wf_field f0" and adj: "adjacency_ok f0"
  shows "wf_field fk \<Longrightarrow> params fk = params f0 \<Longrightarrow> isMined fk = isMined f0 \<Longrightarrow>
     (\<forall>q. isInBoundary f0 q \<longrightarrow>
        cellAt fk q = (if q \<in> U then opened (cellAt f0 q) else cellAt f0 q)) \<Longrightarrow>
     (\<forall>x \<in> U. areaSet f0 x \<subseteq> U) \<Longrightarrow>
     (\<forall>x \<in> U. isMine (cellAt f0 x) \<longrightarrow> x \<notin> set rest) \<Longrightarrow>
     set rest \<subseteq> {q. isInBoundary f0 q} \<Longrightarrow> distinct rest \<Longrightarrow>
     \<exists>f' u' r'. chord_loop rest fk u r ex
          = Some (f', u', r',
                  ex @ map (\<lambda>n. opened (cellAt f0 n))
                         (filter (\<lambda>n. isUntouched (cellAt f0 n) \<and> isMine (cellAt f0 n)) rest)) \<and>
        wf_field f' \<and> params f' = params f0 \<and> isMined f' = isMined f0 \<and>
        (\<forall>q. isInBoundary f0 q \<longrightarrow>
           cellAt f' q = (if q \<in> U \<union> chordSet f0 rest then opened (cellAt f0 q)
                          else cellAt f0 q))"
proof (induction rest arbitrary: fk U u r ex)
  case Nil
  then show ?case by (simp add: chordSet_def)
next
  case (Cons n rest)
  note wfk = Cons.prems(1) and pk = Cons.prems(2) and ik = Cons.prems(3)
    and ck = Cons.prems(4) and cl = Cons.prems(5) and mu = Cons.prems(6)
  have nb: "isInBoundary f0 n" and sub: "set rest \<subseteq> {q. isInBoundary f0 q}"
    using Cons.prems(7) by simp_all
  have d: "distinct rest" and nr: "n \<notin> set rest" using Cons.prems(8) by simp_all
  have bk: "isInBoundary fk = isInBoundary f0" by (rule isInBoundary_params[OF pk])
  have cn: "cellAt fk n = (if n \<in> U then opened (cellAt f0 n) else cellAt f0 n)"
    using ck nb by simp
  have mu': "\<forall>x \<in> U. isMine (cellAt f0 x) \<longrightarrow> x \<notin> set rest" using mu by simp
  show ?case
  proof (cases "isFlagged (cellAt fk n) \<or> isRevealed (cellAt fk n)")
    case skip: True
    have cs: "U \<union> chordSet f0 (n # rest) = U \<union> chordSet f0 rest"
    proof (cases "n \<in> U")
      case True
      then have "areaSet f0 n \<subseteq> U" using cl by blast
      then show ?thesis by (auto simp: chordSet_Cons)
    next
      case False
      with skip cn have "\<not> isUntouched (cellAt f0 n)" by (auto simp: isUntouched_def)
      then show ?thesis by (simp add: chordSet_Cons)
    qed
    have fl: "\<not> (isUntouched (cellAt f0 n) \<and> isMine (cellAt f0 n))"
    proof (cases "n \<in> U")
      case True
      then show ?thesis using mu by auto
    next
      case False
      with skip cn show ?thesis by (auto simp: isUntouched_def)
    qed
    have ft: "filter (\<lambda>n. isUntouched (cellAt f0 n) \<and> isMine (cellAt f0 n)) (n # rest)
            = filter (\<lambda>n. isUntouched (cellAt f0 n) \<and> isMine (cellAt f0 n)) rest"
      using fl by simp
    have cq: "chord_loop (n # rest) fk u r ex = chord_loop rest fk u r ex"
      using skip by simp
    from Cons.IH[OF wfk pk ik ck cl mu' sub d, of u r ex]
    show ?thesis unfolding ft cq cs .
  next
    case ns: False
    then have nU: "n \<notin> U" using cn by auto
    then have c0: "cellAt fk n = cellAt f0 n" using cn by simp
    have ut: "isUntouched (cellAt f0 n)" using ns c0 by (simp add: isUntouched_def)
    show ?thesis
    proof (cases "isMine (cellAt fk n)")
      case mine: True
      define f1 where "f1 = modifyCell fk n (\<lambda>c. c\<lparr>isRevealed := True\<rparr>)"
      have nbk: "isInBoundary fk n" using nb by (simp add: bk)
      have wf1: "wf_field f1" unfolding f1_def by (rule wf_modifyCell[OF wfk]) simp
      have p1: "params f1 = params f0" and i1: "isMined f1 = isMined f0"
        using pk ik by (simp_all add: f1_def)
      have op: "(cellAt f0 n)\<lparr>isRevealed := True\<rparr> = opened (cellAt f0 n)"
        using ut by (simp add: opened_def isUntouched_def)
      have c1: "\<forall>q. isInBoundary f0 q \<longrightarrow>
                  cellAt f1 q = (if q \<in> insert n U then opened (cellAt f0 q) else cellAt f0 q)"
        using ck nU op c0 by (auto simp: f1_def cellAt_modifyCell[OF wfk nbk] bk)
      have an: "areaSet f0 n = {n}" using mine c0 by (simp add: areaSet_def isEmpty_def)
      have cl1: "\<forall>x \<in> insert n U. areaSet f0 x \<subseteq> insert n U" using cl an by auto
      have mu1: "\<forall>x \<in> insert n U. isMine (cellAt f0 x) \<longrightarrow> x \<notin> set rest"
        using mu nr by auto
      have pushed: "getData (cellAt f1 n) = opened (cellAt f0 n)"
        using c1 nb by (simp add: getData_def)
      have cs: "insert n U \<union> chordSet f0 rest = U \<union> chordSet f0 (n # rest)"
        using ut an by (auto simp: chordSet_Cons)
      have ft: "filter (\<lambda>n. isUntouched (cellAt f0 n) \<and> isMine (cellAt f0 n)) (n # rest)
            = n # filter (\<lambda>n. isUntouched (cellAt f0 n) \<and> isMine (cellAt f0 n)) rest"
        using ut mine c0 by simp
      have cq: "chord_loop (n # rest) fk u r ex
              = chord_loop rest f1 u r (ex @ [opened (cellAt f0 n)])"
        using ns mine pushed by (simp add: f1_def)
      from Cons.IH[OF wf1 p1 i1 c1 cl1 mu1 sub d, of u r "ex @ [opened (cellAt f0 n)]"]
      show ?thesis unfolding ft cq cs[symmetric] by simp
    next
      case safe: False
      have nbk: "isInBoundary fk n" using nb by (simp add: bk)
      have sm: "same_mines f0 fk" using pk ck by (auto simp: same_mines_def)
      have as: "areaSet fk n = areaSet f0 n" by (rule areaSet_same_mines[OF wf0 wfk sm nb])
      from openArea_wf[OF wfk nbk] obtain f1 uu rr where
        oa: "openArea n fk = Some (f1, uu, rr)"
        and wf1: "wf_field f1" and p1': "params f1 = params fk" and i1': "isMined f1 = isMined fk"
        and c1': "\<forall>q. isInBoundary fk q \<longrightarrow>
              cellAt f1 q = (if q \<in> areaSet fk n then opened (cellAt fk q) else cellAt fk q)"
        by blast
      have p1: "params f1 = params f0" and i1: "isMined f1 = isMined f0"
        using p1' i1' pk ik by simp_all
      let ?U = "U \<union> areaSet f0 n"
      have c1: "\<forall>q. isInBoundary f0 q \<longrightarrow>
                  cellAt f1 q = (if q \<in> ?U then opened (cellAt f0 q) else cellAt f0 q)"
        using c1' ck by (auto simp: bk as)
      have cl1: "\<forall>x \<in> ?U. areaSet f0 x \<subseteq> ?U" using cl areaSet_closed[of _ f0 n] by blast
      have nm0: "\<not> isMine (cellAt f0 n)" using safe c0 by simp
      have mu1: "\<forall>x \<in> ?U. isMine (cellAt f0 x) \<longrightarrow> x \<notin> set rest"
        using mu areaSet_no_mine[OF wf0 adj nb nm0] by auto
      have cs: "?U \<union> chordSet f0 rest = U \<union> chordSet f0 (n # rest)"
        using ut by (auto simp: chordSet_Cons)
      have ft: "filter (\<lambda>n. isUntouched (cellAt f0 n) \<and> isMine (cellAt f0 n)) (n # rest)
            = filter (\<lambda>n. isUntouched (cellAt f0 n) \<and> isMine (cellAt f0 n)) rest"
        using nm0 by simp
      have cq: "chord_loop (n # rest) fk u r ex = chord_loop rest f1 (u @ uu) (r @ rr) ex"
        using ns safe oa by simp
      from Cons.IH[OF wf1 p1 i1 c1 cl1 mu1 sub d, of "u @ uu" "r @ rr" ex]
      show ?thesis unfolding ft cq cs[symmetric] .
    qed
  qed
qed

section \<open>The effect of a reveal on the operated field\<close>

text \<open>
  The cells that the main logic of \<open>revealCell\<close> opens at a target that is not flagged:
  the target when it is a mine; the areas of the untouched siblings when it is revealed
  and the number of its flagged siblings is its number, none when the numbers differ; its
  area otherwise.
\<close>

definition flagCount :: "SquareField \<Rightarrow> Position \<Rightarrow> nat" where
  "flagCount f p = length (filter (\<lambda>s. isFlagged (cellAt f s)) (nbrs f p))"

definition revealSet :: "SquareField \<Rightarrow> Position \<Rightarrow> Position set" where
  "revealSet f p =
     (if isMine (cellAt f p) then {p}
      else if isRevealed (cellAt f p) then
        (if int (flagCount f p) = adjacentMines (cellAt f p) then chordSet f (nbrs f p) else {})
      else areaSet f p)"

definition revealExploded :: "SquareField \<Rightarrow> Position \<Rightarrow> CellData list" where
  "revealExploded f p =
     (if isMine (cellAt f p) then [cellAt f p]
      else if isRevealed (cellAt f p) \<and> int (flagCount f p) = adjacentMines (cellAt f p) then
        map (\<lambda>n. opened (cellAt f n))
          (filter (\<lambda>n. isUntouched (cellAt f n) \<and> isMine (cellAt f n)) (nbrs f p))
      else [])"

lemma handleRevealedClick_wf:
  assumes wf: "wf_field f" and adj: "adjacency_ok f" and pb: "isInBoundary f p"
  shows "\<exists>f' u r h.
           handleRevealedClick (cellAt f p) f
             = Some (f', u, r, h,
                     if int (flagCount f p) = adjacentMines (cellAt f p) then
                       map (\<lambda>n. opened (cellAt f n))
                         (filter (\<lambda>n. isUntouched (cellAt f n) \<and> isMine (cellAt f n)) (nbrs f p))
                     else []) \<and>
           (int (flagCount f p) \<noteq> adjacentMines (cellAt f p) \<longrightarrow>
              f' = f \<and> u = [] \<and> r = [] \<and> h = []) \<and>
           wf_field f' \<and> params f' = params f \<and> isMined f' = isMined f \<and>
           (\<forall>q. isInBoundary f q \<longrightarrow>
              cellAt f' q =
                (if int (flagCount f p) = adjacentMines (cellAt f p) \<and> q \<in> chordSet f (nbrs f p)
                 then opened (cellAt f q) else cellAt f q))"
proof -
  have gs: "getSiblings f (position (cellAt f p)) = Some (nbrs f p)"
    by (simp add: position_cellAt[OF wf pb] getSiblings_wf[OF wf])
  show ?thesis
  proof (cases "int (flagCount f p) = adjacentMines (cellAt f p)")
    case False
    then show ?thesis using wf
      by (simp add: handleRevealedClick_def gs Let_def flagCount_def)
  next
    case True
    have "\<exists>f' u' r'. chord_loop (nbrs f p) f [] [] []
          = Some (f', u', r',
                  [] @ map (\<lambda>n. opened (cellAt f n))
                         (filter (\<lambda>n. isUntouched (cellAt f n) \<and> isMine (cellAt f n)) (nbrs f p))) \<and>
        wf_field f' \<and> params f' = params f \<and> isMined f' = isMined f \<and>
        (\<forall>q. isInBoundary f q \<longrightarrow>
           cellAt f' q = (if q \<in> {} \<union> chordSet f (nbrs f p) then opened (cellAt f q)
                          else cellAt f q))"
      by (rule chord_loop_inv[OF wf adj wf]) (auto simp: nbrs_boundary distinct_nbrs)
    then obtain f' u' r' where
      cl: "chord_loop (nbrs f p) f [] [] []
          = Some (f', u', r',
                  map (\<lambda>n. opened (cellAt f n))
                         (filter (\<lambda>n. isUntouched (cellAt f n) \<and> isMine (cellAt f n)) (nbrs f p)))"
      and r: "wf_field f'" "params f' = params f" "isMined f' = isMined f"
        "\<forall>q. isInBoundary f q \<longrightarrow>
           cellAt f' q = (if q \<in> chordSet f (nbrs f p) then opened (cellAt f q) else cellAt f q)"
      by auto
    show ?thesis using True r
      by (simp add: handleRevealedClick_def gs Let_def flagCount_def cl)
  qed
qed

lemma mainLogic_wf:
  assumes wf: "wf_field f" and adj: "adjacency_ok f" and pb: "isInBoundary f p"
    and nf: "\<not> isFlagged (cellAt f p)"
  shows "\<exists>f' rv u h.
           mainLogic (cellAt f p) p f = Some (f', rv, u, h, revealExploded f p) \<and>
           (\<not> isMine (cellAt f p) \<and> isRevealed (cellAt f p) \<and>
            int (flagCount f p) \<noteq> adjacentMines (cellAt f p) \<longrightarrow>
              f' = f \<and> rv = [] \<and> u = [] \<and> h = []) \<and>
           wf_field f' \<and> params f' = params f \<and> isMined f' = isMined f \<and>
           (\<forall>q. isInBoundary f q \<longrightarrow>
              cellAt f' q = (if q \<in> revealSet f p then opened (cellAt f q) else cellAt f q))"
proof (cases "isMine (cellAt f p)")
  case True
  have op: "(cellAt f p)\<lparr>isRevealed := True\<rparr> = opened (cellAt f p)"
    using nf by (simp add: opened_def)
  have "wf_field (modifyCell f p (\<lambda>c. c\<lparr>isRevealed := True\<rparr>))"
    by (rule wf_modifyCell[OF wf]) simp
  then show ?thesis using True op
    by (simp add: mainLogic_def Let_def revealSet_def revealExploded_def getData_def
        cellAt_modifyCell[OF wf pb])
next
  case nm: False
  show ?thesis
  proof (cases "isRevealed (cellAt f p)")
    case True
    from handleRevealedClick_wf[OF wf adj pb] obtain f' u r h where
      hc: "handleRevealedClick (cellAt f p) f
             = Some (f', u, r, h,
                     if int (flagCount f p) = adjacentMines (cellAt f p) then
                       map (\<lambda>n. opened (cellAt f n))
                         (filter (\<lambda>n. isUntouched (cellAt f n) \<and> isMine (cellAt f n)) (nbrs f p))
                     else [])"
      and r: "int (flagCount f p) \<noteq> adjacentMines (cellAt f p) \<longrightarrow>
              f' = f \<and> u = [] \<and> r = [] \<and> h = []"
        "wf_field f'" "params f' = params f" "isMined f' = isMined f"
        "\<forall>q. isInBoundary f q \<longrightarrow>
              cellAt f' q =
                (if int (flagCount f p) = adjacentMines (cellAt f p) \<and> q \<in> chordSet f (nbrs f p)
                 then opened (cellAt f q) else cellAt f q)"
      by blast
    have ml: "mainLogic (cellAt f p) p f = Some (f', r, u, h, revealExploded f p)"
      using nm True by (simp add: mainLogic_def Let_def hc revealExploded_def)
    show ?thesis using ml r nm True by (auto simp: revealSet_def)
  next
    case False
    from openArea_wf[OF wf pb] obtain f' area where
      oa: "openArea p f = Some (f', map (cellAt f) (filter (\<lambda>c. isFlagged (cellAt f c)) area),
                                   map (cellAt f) (filter (\<lambda>c. \<not> isRevealed (cellAt f c)) area))"
      and r: "wf_field f'" "params f' = params f" "isMined f' = isMined f"
        "\<forall>q. isInBoundary f q \<longrightarrow>
              cellAt f' q = (if q \<in> areaSet f p then opened (cellAt f q) else cellAt f q)"
      by blast
    show ?thesis using nm False r
      by (simp add: mainLogic_def Let_def oa revealSet_def revealExploded_def)
  qed
qed

section \<open>Well-formed engines\<close>

text \<open>
  The state of an engine between two actions: the field is well formed and has the
  parameters of the engine, the adjacency invariant holds, and mines have been placed
  unless the configured number of mines is not positive.
\<close>

definition wf_engine :: "GameEngine \<Rightarrow> bool" where
  "wf_engine e \<longleftrightarrow>
     wf_field (engine_field e) \<and> params (engine_field e) = engine_params e \<and>
     adjacency_ok (engine_field e) \<and>
     (0 < mineCount (engine_field e) \<or> mines (engine_params e) \<le> 0)"

lemma find_unmined:
  assumes wf: "wf_field f"
  shows "(find (\<lambda>cell. \<not> isMine cell) (concat (grid f)) = None
            \<longleftrightarrow> (\<forall>q. isInBoundary f q \<longrightarrow> isMine (cellAt f q))) \<and>
         (\<forall>c. find (\<lambda>cell. \<not> isMine cell) (concat (grid f)) = Some c \<longrightarrow>
            isInBoundary f (position c) \<and> \<not> isMine (cellAt f (position c)))"
proof (rule conjI)
  show "find (\<lambda>cell. \<not> isMine cell) (concat (grid f)) = None
            \<longleftrightarrow> (\<forall>q. isInBoundary f q \<longrightarrow> isMine (cellAt f q))"
    by (auto simp: find_None_iff concat_grid[OF wf] set_all_positions)
next
  show "\<forall>c. find (\<lambda>cell. \<not> isMine cell) (concat (grid f)) = Some c \<longrightarrow>
            isInBoundary f (position c) \<and> \<not> isMine (cellAt f (position c))"
  proof (intro allI impI)
    fix c assume "find (\<lambda>cell. \<not> isMine cell) (concat (grid f)) = Some c"
    then have "c \<in> set (concat (grid f))" and nm: "\<not> isMine c"
      by (auto simp: find_Some_iff simp del: set_concat intro: nth_mem)
    then obtain q where q: "isInBoundary f q" and c: "c = cellAt f q"
      by (auto simp: concat_grid[OF wf] set_all_positions)
    then show "isInBoundary f (position c) \<and> \<not> isMine (cellAt f (position c))"
      using nm by (simp add: position_cellAt[OF wf])
  qed
qed

lemma firstClick_wf:
  assumes wf: "wf_field f" and adj: "adjacency_ok f" and pb: "isInBoundary f p"
    and pl: "0 < mineCount f \<or> mines (params f) \<le> 0"
  shows "\<exists>st f1. firstClick (cloneSelf f) g p = Some (st, f1, g) \<and>
           wf_field f1 \<and> params f1 = params f \<and> adjacency_ok f1 \<and>
           mineCount f1 = mineCount f \<and>
           (\<forall>q. isInBoundary f q \<longrightarrow>
              isRevealed (cellAt f1 q) = isRevealed (cellAt f q) \<and>
              isFlagged (cellAt f1 q) = isFlagged (cellAt f q)) \<and>
           (\<not> isMine (cellAt f p) \<longrightarrow>
              st = Playing \<and> (\<forall>q. isInBoundary f q \<longrightarrow> cellAt f1 q = cellAt f q)) \<and>
           (isMine (cellAt f p) \<and> (\<exists>q. isInBoundary f q \<and> \<not> isMine (cellAt f q)) \<longrightarrow>
              st = Playing \<and>
              (\<exists>b. isInBoundary f b \<and> \<not> isMine (cellAt f b) \<and>
                 (\<forall>q. isInBoundary f q \<longrightarrow>
                    isMine (cellAt f1 q) = (q = b \<or> (q \<noteq> p \<and> isMine (cellAt f q)))))) \<and>
           (isMine (cellAt f p) \<and> (\<forall>q. isInBoundary f q \<longrightarrow> isMine (cellAt f q)) \<longrightarrow>
              st = Lost \<and> (\<forall>q. isInBoundary f q \<longrightarrow> cellAt f1 q = cellAt f q))"
proof -
  define f0 where "f0 = f\<lparr>isMined := True\<rparr>"
  have pm: "(if \<not> isMined (cloneSelf f) then placeMines g (cloneSelf f)
             else Some (cloneSelf f, g)) = Some (f0, g)"
  proof (cases "0 < mineCount f")
    case True
    then show ?thesis by (simp add: cloneSelf_wf f0_def)
  next
    case False
    with pl have "\<not> 0 < mines (params f)" by simp
    then show ?thesis using False
      by (simp add: cloneSelf_wf f0_def placeMines_def placeMines_loop.simps)
  qed
  have wf0: "wf_field f0" and p0: "params f0 = params f" and adj0: "adjacency_ok f0"
    and c0: "cellAt f0 = cellAt f" and mc0: "mineCount f0 = mineCount f"
    and g0: "grid f0 = grid f"
    using wf adj by (simp_all add: f0_def)
  have b0: "isInBoundary f0 = isInBoundary f" by (rule isInBoundary_params[OF p0])
  have gd: "getCellData f0 p = Some (cellAt f p)"
    using getCellObj_boundary[OF wf0] pb by (simp add: getCellData_def getData_def b0 c0)
  show ?thesis
  proof (cases "isMine (cellAt f p)")
    case False
    then have "firstClick (cloneSelf f) g p = Some (Playing, f0, g)"
      unfolding firstClick_def pm by (simp add: gd)
    then show ?thesis using False wf0 p0 adj0 c0 mc0 by simp
  next
    case mine: True
    show ?thesis
    proof (cases "find (\<lambda>cell. \<not> isMine cell) (concat (grid f))")
      case None
      then have all: "\<forall>q. isInBoundary f q \<longrightarrow> isMine (cellAt f q)"
        using find_unmined[OF wf] by simp
      have "firstClick (cloneSelf f) g p = Some (Lost, f0, g)"
        unfolding firstClick_def pm using mine None by (simp add: gd g0)
      then show ?thesis using mine all wf0 p0 adj0 c0 mc0 by auto
    next
      case (Some c)
      then have bb: "isInBoundary f (position c)" and nb: "\<not> isMine (cellAt f (position c))"
        using find_unmined[OF wf] by simp_all
      from relocateMine_wf[OF wf0, of p "position c"] pb bb adj0 mine nb
      obtain f2 where rl: "relocateMine f0 p (position c) = Some f2"
        and r: "wf_field f2" "params f2 = params f0" "adjacency_ok f2" "mineCount f2 = mineCount f0"
          "\<forall>q. isInBoundary f0 q \<longrightarrow>
              isMine (cellAt f2 q) = (q = position c \<or> (q \<noteq> p \<and> isMine (cellAt f0 q))) \<and>
              isRevealed (cellAt f2 q) = isRevealed (cellAt f0 q) \<and>
              isFlagged (cellAt f2 q) = isFlagged (cellAt f0 q)"
        by (auto simp: b0 c0)
      have fc: "firstClick (cloneSelf f) g p = Some (Playing, f2, g)"
        unfolding firstClick_def pm using mine Some by (simp add: gd g0 rl)
      have ex: "\<exists>b. isInBoundary f b \<and> \<not> isMine (cellAt f b) \<and>
                 (\<forall>q. isInBoundary f q \<longrightarrow>
                    isMine (cellAt f2 q) = (q = b \<or> (q \<noteq> p \<and> isMine (cellAt f q))))"
        using bb nb r(5) by (auto simp: b0 c0 intro!: exI[of _ "position c"])
      have nall: "\<not> (\<forall>q. isInBoundary f q \<longrightarrow> isMine (cellAt f q))" using bb nb by blast
      show ?thesis using fc mine r ex nall by (simp add: p0 mc0 b0 c0)
    qed
  qed
qed

section \<open>The effect of \<open>revealCell\<close> and \<open>toggleFlag\<close>\<close>

lemma cloneSelf_simps [simp]:
  "wf_field (cloneSelf f) = wf_field f" "params (cloneSelf f) = params f"
  "grid (cloneSelf f) = grid f" "cellAt (cloneSelf f) = cellAt f"
  "adjacency_ok (cloneSelf f) = adjacency_ok f" "mineCount (cloneSelf f) = mineCount f"
  "isInBoundary (cloneSelf f) = isInBoundary f"
  by (simp_all add: cloneSelf_wf)

text \<open>The working status and the operated field before the main logic of \<open>revealCell\<close>.\<close>

definition preReveal :: "GameEngine \<Rightarrow> rng \<Rightarrow> Position \<Rightarrow> (GameStatus \<times> SquareField \<times> rng) option" where
  "preReveal e g p =
     (if engine_status e = Idle then firstClick (cloneSelf (engine_field e)) g p
      else Some (engine_status e, cloneSelf (engine_field e), g))"

lemma revealCell_sem:
  assumes we: "wf_engine e" and pb: "isInBoundary (engine_field e) p"
  shows "\<exists>r st f1 f'.
     revealCell e g p = Some (r, g) \<and> preReveal e g p = Some (st, f1, g) \<and>
     wf_field f1 \<and> params f1 = engine_params e \<and> adjacency_ok f1 \<and>
     mineCount f1 = mineCount (engine_field e) \<and>
     wf_field f' \<and> params f' = engine_params e \<and> isMined f' = isMined f1 \<and>
     (\<forall>q. isInBoundary f1 q \<longrightarrow>
        cellAt f' q = (if st = Playing \<and> \<not> isFlagged (cellAt f1 p) \<and> q \<in> revealSet f1 p
                       then opened (cellAt f1 q) else cellAt f1 q)) \<and>
     actionSnapshot (data r) = withStatus (getState f') (determineStatus e (getState f')) \<and>
     applyAction r = (\<lambda>this. this\<lparr>engine_status := determineStatus e (getState f'),
                                   engine_field := f',
                                   flagsRemaining := getFlagsRemaining this (getState f')\<rparr>) \<and>
     delta_explodedCells (actionChanges (data r))
       = (if st = Playing \<and> \<not> isFlagged (cellAt f1 p) then revealExploded f1 p else []) \<and>
     delta_flaggedCells (actionChanges (data r)) = [] \<and>
     (st \<noteq> Playing \<or> isFlagged (cellAt f1 p) \<or>
      (\<not> isMine (cellAt f1 p) \<and> isRevealed (cellAt f1 p) \<and>
       int (flagCount f1 p) \<noteq> adjacentMines (cellAt f1 p)) \<longrightarrow>
        f' = f1 \<and> delta_revealedCells (actionChanges (data r)) = [] \<and>
        delta_unflaggedCells (actionChanges (data r)) = [] \<and>
        handledCells (actionChanges (data r)) = [])"
proof -
  let ?f = "engine_field e"
  from we have wf: "wf_field ?f" and ps: "params ?f = engine_params e"
    and adj: "adjacency_ok ?f"
    and pl: "0 < mineCount ?f \<or> mines (params ?f) \<le> 0"
    by (simp_all add: wf_engine_def)
  have "\<exists>st f1. preReveal e g p = Some (st, f1, g) \<and> wf_field f1 \<and> params f1 = params ?f \<and>
          adjacency_ok f1 \<and> mineCount f1 = mineCount ?f"
  proof (cases "engine_status e = Idle")
    case True
    from firstClick_wf[OF wf adj pb pl, of g] show ?thesis
      using True by (auto simp: preReveal_def)
  next
    case False
    then show ?thesis using wf adj by (simp add: preReveal_def)
  qed
  then obtain st f1 where pr: "preReveal e g p = Some (st, f1, g)"
    and wf1: "wf_field f1" and p1: "params f1 = params ?f" and adj1: "adjacency_ok f1"
    and mc1: "mineCount f1 = mineCount ?f" by blast
  have b1: "isInBoundary f1 = isInBoundary ?f" by (rule isInBoundary_params[OF p1])
  have pb1: "isInBoundary f1 p" using pb by (simp add: b1)
  have gc: "getCell f1 p = Some (Some (cellAt f1 p))" by (rule getCell_boundary[OF wf1 pb1])
  have pr': "(if engine_status e = Idle then firstClick (cloneSelf (engine_field e)) g p
            else Some (engine_status e, cloneSelf (engine_field e), g)) = Some (st, f1, g)"
    using pr by (simp add: preReveal_def)
  show ?thesis
  proof (cases "st = Playing \<and> \<not> isFlagged (cellAt f1 p)")
    case False
    then have "\<exists>r. revealCell e g p = Some (r, g) \<and>
       actionSnapshot (data r) = withStatus (getState f1) (determineStatus e (getState f1)) \<and>
       applyAction r = (\<lambda>this. this\<lparr>engine_status := determineStatus e (getState f1),
                                   engine_field := f1,
                                   flagsRemaining := getFlagsRemaining this (getState f1)\<rparr>) \<and>
       delta_explodedCells (actionChanges (data r)) = [] \<and>
       delta_flaggedCells (actionChanges (data r)) = [] \<and>
       delta_revealedCells (actionChanges (data r)) = [] \<and>
       delta_unflaggedCells (actionChanges (data r)) = [] \<and>
       handledCells (actionChanges (data r)) = []"
      unfolding revealCell_def pr' by (auto simp: gc)
    then obtain r where rr: "revealCell e g p = Some (r, g)"
       "actionSnapshot (data r) = withStatus (getState f1) (determineStatus e (getState f1))"
       "applyAction r = (\<lambda>this. this\<lparr>engine_status := determineStatus e (getState f1),
                                   engine_field := f1,
                                   flagsRemaining := getFlagsRemaining this (getState f1)\<rparr>)"
       "delta_explodedCells (actionChanges (data r)) = []"
       "delta_flaggedCells (actionChanges (data r)) = []"
       "delta_revealedCells (actionChanges (data r)) = []"
       "delta_unflaggedCells (actionChanges (data r)) = []"
       "handledCells (actionChanges (data r)) = []" by blast
    show ?thesis
      apply (rule exI[of _ r], rule exI[of _ st], rule exI[of _ f1], rule exI[of _ f1])
      using False pr wf1 p1 ps adj1 mc1 rr by auto
  next
    case True
    then have nf: "\<not> isFlagged (cellAt f1 p)" and st: "st = Playing" by simp_all
    from mainLogic_wf[OF wf1 adj1 pb1 nf] obtain f' rv u h where
      ml: "mainLogic (cellAt f1 p) p f1 = Some (f', rv, u, h, revealExploded f1 p)"
      and nop: "\<not> isMine (cellAt f1 p) \<and> isRevealed (cellAt f1 p) \<and>
            int (flagCount f1 p) \<noteq> adjacentMines (cellAt f1 p) \<longrightarrow>
              f' = f1 \<and> rv = [] \<and> u = [] \<and> h = []"
      and r: "wf_field f'" "params f' = params f1" "isMined f' = isMined f1"
        "\<forall>q. isInBoundary f1 q \<longrightarrow>
              cellAt f' q = (if q \<in> revealSet f1 p then opened (cellAt f1 q) else cellAt f1 q)"
      by blast
    have "\<exists>r. revealCell e g p = Some (r, g) \<and>
       actionSnapshot (data r) = withStatus (getState f') (determineStatus e (getState f')) \<and>
       applyAction r = (\<lambda>this. this\<lparr>engine_status := determineStatus e (getState f'),
                                   engine_field := f',
                                   flagsRemaining := getFlagsRemaining this (getState f')\<rparr>) \<and>
       delta_explodedCells (actionChanges (data r)) = revealExploded f1 p \<and>
       delta_flaggedCells (actionChanges (data r)) = [] \<and>
       delta_revealedCells (actionChanges (data r)) = rv \<and>
       delta_unflaggedCells (actionChanges (data r)) = u \<and>
       handledCells (actionChanges (data r)) = h"
      unfolding revealCell_def pr' using nf st by (simp add: gc ml)
    then obtain r where rr: "revealCell e g p = Some (r, g)"
       "actionSnapshot (data r) = withStatus (getState f') (determineStatus e (getState f'))"
       "applyAction r = (\<lambda>this. this\<lparr>engine_status := determineStatus e (getState f'),
                                   engine_field := f',
                                   flagsRemaining := getFlagsRemaining this (getState f')\<rparr>)"
       "delta_explodedCells (actionChanges (data r)) = revealExploded f1 p"
       "delta_flaggedCells (actionChanges (data r)) = []"
       "delta_revealedCells (actionChanges (data r)) = rv"
       "delta_unflaggedCells (actionChanges (data r)) = u"
       "handledCells (actionChanges (data r)) = h" by blast
    show ?thesis
      apply (rule exI[of _ r], rule exI[of _ st], rule exI[of _ f1], rule exI[of _ f'])
      using True pr wf1 p1 ps adj1 mc1 r nop rr by auto
  qed
qed

lemma toggleFlag_sem:
  assumes we: "wf_engine e" and pb: "isInBoundary (engine_field e) p"
  shows "\<exists>r f'.
     toggleFlag e p = Some r \<and>
     wf_field f' \<and> params f' = engine_params e \<and>
     (\<forall>q. isInBoundary (engine_field e) q \<longrightarrow>
        cellAt f' q =
          (if q = p \<and> engine_status e = Playing \<and> \<not> isRevealed (cellAt (engine_field e) p)
           then (if isFlagged (cellAt (engine_field e) p)
                 then (cellAt (engine_field e) p)\<lparr>isFlagged := False\<rparr>
                 else if flagsRemaining e > 0
                 then (cellAt (engine_field e) p)\<lparr>isFlagged := True\<rparr>
                 else cellAt (engine_field e) p)
           else cellAt (engine_field e) q)) \<and>
     actionSnapshot (data r) = withStatus (getState f') (engine_status e) \<and>
     applyAction r = (\<lambda>this. this\<lparr>engine_field := f',
                                   flagsRemaining := getFlagsRemaining this (getState f')\<rparr>) \<and>
     delta_explodedCells (actionChanges (data r)) = [] \<and>
     delta_revealedCells (actionChanges (data r)) = [] \<and>
     handledCells (actionChanges (data r)) = [] \<and>
     target (actionChanges (data r)) = Some (cellAt (engine_field e) p) \<and>
     (engine_status e \<noteq> Playing \<or> isRevealed (cellAt (engine_field e) p) \<or>
      (\<not> isFlagged (cellAt (engine_field e) p) \<and> flagsRemaining e \<le> 0) \<longrightarrow>
        f' = cloneSelf (engine_field e) \<and>
        delta_flaggedCells (actionChanges (data r)) = [] \<and>
        delta_unflaggedCells (actionChanges (data r)) = [])"
proof -
  let ?f = "engine_field e"
  let ?c = "cloneSelf ?f"
  from we have wf: "wf_field ?f" and ps: "params ?f = engine_params e"
    by (simp_all add: wf_engine_def)
  have wfc: "wf_field ?c" and pbc: "isInBoundary ?c p" using wf pb by simp_all
  have gc: "getCellObj ?c p = Some (cellAt ?f p)"
    using getCellObj_boundary[OF wfc pbc] by simp
  have cm: "\<And>h q. isInBoundary ?f q \<Longrightarrow>
               cellAt (modifyCell ?c p h) q = (if q = p then h (cellAt ?f p) else cellAt ?f q)"
    using cellAt_modifyCell[OF wfc pbc] by simp
  have wfm: "\<And>h. (\<And>c. position (h c) = position c) \<Longrightarrow> wf_field (modifyCell ?c p h)"
    by (rule wf_modifyCell[OF wfc])
  define f' where "f' =
     (if engine_status e = Playing \<and> \<not> isRevealed (cellAt ?f p) then
        (if isFlagged (cellAt ?f p) then modifyCell ?c p (\<lambda>c. c\<lparr>isFlagged := False\<rparr>)
         else if flagsRemaining e > 0 then modifyCell ?c p (\<lambda>c. c\<lparr>isFlagged := True\<rparr>)
         else ?c)
      else ?c)"
  have w: "wf_field f'" and p': "params f' = engine_params e"
    using wfc ps wfm by (auto simp: f'_def)
  have c': "\<forall>q. isInBoundary (engine_field e) q \<longrightarrow>
        cellAt f' q =
          (if q = p \<and> engine_status e = Playing \<and> \<not> isRevealed (cellAt (engine_field e) p)
           then (if isFlagged (cellAt (engine_field e) p)
                 then (cellAt (engine_field e) p)\<lparr>isFlagged := False\<rparr>
                 else if flagsRemaining e > 0
                 then (cellAt (engine_field e) p)\<lparr>isFlagged := True\<rparr>
                 else cellAt (engine_field e) p)
           else cellAt (engine_field e) q)"
    using cm by (auto simp: f'_def)
  have "\<exists>r. toggleFlag e p = Some r \<and>
     actionSnapshot (data r) = withStatus (getState f') (engine_status e) \<and>
     applyAction r = (\<lambda>this. this\<lparr>engine_field := f',
                                   flagsRemaining := getFlagsRemaining this (getState f')\<rparr>) \<and>
     delta_explodedCells (actionChanges (data r)) = [] \<and>
     delta_revealedCells (actionChanges (data r)) = [] \<and>
     handledCells (actionChanges (data r)) = [] \<and>
     target (actionChanges (data r)) = Some (cellAt (engine_field e) p) \<and>
     (engine_status e \<noteq> Playing \<or> isRevealed (cellAt (engine_field e) p) \<or>
      (\<not> isFlagged (cellAt (engine_field e) p) \<and> flagsRemaining e \<le> 0) \<longrightarrow>
        f' = cloneSelf (engine_field e) \<and>
        delta_flaggedCells (actionChanges (data r)) = [] \<and>
        delta_unflaggedCells (actionChanges (data r)) = [])"
    unfolding toggleFlag_def gc f'_def by (auto simp: Let_def getData_def)
  with w p' c' show ?thesis by blast
qed

section \<open>Fields with the same mines\<close>

lemma adjacency_ok_same_mines:
  assumes wf: "wf_field f" and wf': "wf_field f'" and sm: "same_mines f f'"
    and adj: "adjacency_ok f"
  shows "adjacency_ok f'"
proof -
  have ps: "params f' = params f" using sm by (simp add: same_mines_def)
  have "minedNbrs f' p = minedNbrs f p" for p
    by (rule minedNbrs_cong[OF ps]) (use sm in \<open>simp add: same_mines_def\<close>)
  then show ?thesis
    using adj sm unfolding adjacency_ok_iff[OF wf] adjacency_ok_iff[OF wf']
    by (simp add: isInBoundary_params[OF ps] same_mines_def)
qed

lemma mineCount_same_mines:
  assumes wf: "wf_field f" and wf': "wf_field f'" and sm: "same_mines f f'"
  shows "mineCount f' = mineCount f"
proof -
  have ps: "params f' = params f" using sm by (simp add: same_mines_def)
  have "filter (\<lambda>p. isMine (cellAt f' p)) (all_positions f)
      = filter (\<lambda>p. isMine (cellAt f p)) (all_positions f)"
    by (rule filter_cong) (use sm in \<open>auto simp: same_mines_def set_all_positions\<close>)
  then show ?thesis
    by (simp add: mineCount_positions[OF wf] mineCount_positions[OF wf'] all_positions_params[OF ps])
qed

lemma placeMines_loop_marks:
  assumes "placeMines_loop g f avoidSet n = Some y"
  shows "wf_field f \<Longrightarrow>
         \<forall>q. isInBoundary f q \<longrightarrow>
            isRevealed (cellAt (fst y) q) = isRevealed (cellAt f q) \<and>
            isFlagged (cellAt (fst y) q) = isFlagged (cellAt f q)"
  using assms
proof (induction g f avoidSet n y rule: placeMines_loop.raw_induct [rotated 1, consumes 1, case_names step])
  case (step loop g f avoidSet n y)
  let ?pos = "\<lparr>col = \<lfloor>g 0 * of_int (cols (params f))\<rfloor>, row = \<lfloor>g 1 * of_int (rows (params f))\<rfloor>\<rparr>"
  show ?case
  proof (cases "n < mines (params f)")
    case False
    with step(2) have "y = (f, g)" by simp
    then show ?thesis by simp
  next
    case lt: True
    show ?thesis
    proof (cases "?pos \<in> set avoidSet")
      case True
      with lt step(2) have "loop (\<lambda>n. g (n + 2)) f avoidSet n = Some y" by simp
      from step(1)[OF this step(3)] show ?thesis .
    next
      case False
      with lt step(2) obtain f' where mc: "mineCell f ?pos = Some f'"
        and lp: "loop (\<lambda>n. g (n + 2)) f' (?pos # avoidSet) (n + 1) = Some y"
        by (auto split: option.splits)
      have inb: "isInBoundary f ?pos"
      proof (rule ccontr)
        assume "\<not> isInBoundary f ?pos"
        then have "mineCell f ?pos = None"
          using getCellObj_outside[OF step(3)] by (simp add: mineCell_def)
        with mc show False by simp
      qed
      from mineCell_wf[OF step(3) inb] mc have wf': "wf_field f'" and ps: "params f' = params f"
        and c0: "\<And>q. isInBoundary f q \<Longrightarrow>
              cellAt f' q = (cellAt f q)\<lparr>isMine := (q = ?pos \<or> isMine (cellAt f q)),
                               adjacentMines := adjacentMines (cellAt f q)
                                  + (if q \<in> set (nbrs f ?pos) then 1 else 0)\<rparr>"
        by auto
      from step(1)[OF lp wf'] show ?thesis
        by (simp add: isInBoundary_params[OF ps] c0)
    qed
  qed
qed

section \<open>Construction and actions keep the engine well formed\<close>

lemma placeMines_marks:
  assumes pm: "placeMines g f = Some (f', g')" and wf: "wf_field f"
  shows "\<forall>q. isInBoundary f q \<longrightarrow>
            isRevealed (cellAt f' q) = isRevealed (cellAt f q) \<and>
            isFlagged (cellAt f' q) = isFlagged (cellAt f q)"
proof (cases "isMined f")
  case True
  with pm show ?thesis by (simp add: placeMines_def)
next
  case False
  with pm have lp: "placeMines_loop g (f\<lparr>isMined := True\<rparr>) [] 0 = Some (f', g')"
    by (simp add: placeMines_def)
  from placeMines_loop_marks[OF lp] wf show ?thesis by simp
qed

lemma new_GameEngine_fresh:
  assumes ne: "new_GameEngine cfg g = Some (e, g')" and nd: "config_data cfg = None"
  shows "wf_engine e \<and> engine_params e = config_params cfg \<and> engine_status e = Idle \<and>
         flagsRemaining e = mines (config_params cfg) \<and>
         int (mineCount (engine_field e)) = max 0 (mines (config_params cfg)) \<and>
         (\<forall>q. isInBoundary (engine_field e) q \<longrightarrow>
            \<not> isRevealed (cellAt (engine_field e) q) \<and> \<not> isFlagged (cellAt (engine_field e) q))"
proof -
  let ?f0 = "new_SquareField (config_params cfg) None"
  from ne nd obtain f where pm: "placeMines g ?f0 = Some (f, g')"
    and e: "e = \<lparr>engine_params = config_params cfg, engine_field = f,
                 engine_status = Idle, flagsRemaining = mines (config_params cfg)\<rparr>"
    by (auto simp: new_GameEngine_def FieldFactory_create_def split: option.splits)
  note fr = new_SquareField_fresh[of "config_params cfg"]
  from placeMines_inv[OF pm] fr
  have r: "wf_field f" "adjacency_ok f" "params f = config_params cfg" "isMined f"
    "int (mineCount f) = max 0 (mines (config_params cfg))"
    by simp_all
  have b: "isInBoundary f = isInBoundary ?f0"
    by (rule isInBoundary_params) (use r(3) fr in simp)
  from placeMines_marks[OF pm] fr
  have m: "\<forall>q. isInBoundary f q \<longrightarrow> \<not> isRevealed (cellAt f q) \<and> \<not> isFlagged (cellAt f q)"
    by (simp add: b new_SimpleCell_def)
  have "0 < mineCount f \<or> mines (config_params cfg) \<le> 0" using r(5) by linarith
  with r m show ?thesis by (simp add: e wf_engine_def)
qed

lemma new_GameEngine_restored:
  assumes ne: "new_GameEngine cfg g = Some (e, g')" and d: "config_data cfg = Some d"
    and wf: "wf_field (new_SquareField (config_params cfg) (Some d))"
    and adj: "adjacency_ok (new_SquareField (config_params cfg) (Some d))"
  shows "wf_engine e"
proof -
  let ?f0 = "new_SquareField (config_params cfg) (Some d)"
  from ne d obtain f where pm: "placeMines g ?f0 = Some (f, g')"
    and e: "e = \<lparr>engine_params = config_params cfg, engine_field = f,
                 engine_status = Idle, flagsRemaining = mines (config_params cfg)\<rparr>"
    by (auto simp: new_GameEngine_def FieldFactory_create_def split: option.splits)
  have p0: "params ?f0 = config_params cfg" and im: "isMined ?f0 \<longleftrightarrow> 0 < mineCount ?f0"
    by (simp_all add: new_SquareField_def Let_def list_ex_mine[symmetric])
  from placeMines_inv[OF pm wf adj] im
  have r: "wf_field f" "adjacency_ok f" "params f = config_params cfg"
    "int (mineCount f) = (if isMined ?f0 then int (mineCount ?f0) else max 0 (mines (config_params cfg)))"
    by (simp_all add: p0)
  have "0 < mineCount f \<or> mines (config_params cfg) \<le> 0"
    using r(4) im by (cases "isMined ?f0") auto
  with r show ?thesis by (simp add: e wf_engine_def)
qed

lemma revealCell_wf_engine:
  assumes we: "wf_engine e" and pb: "isInBoundary (engine_field e) p"
    and rv: "revealCell e g p = Some (r, g')"
  shows "wf_engine (applyAction r e) \<and> engine_params (applyAction r e) = engine_params e"
proof -
  from revealCell_sem[OF we pb, of g] rv obtain st f1 f' where
    r: "wf_field f1" "params f1 = engine_params e" "adjacency_ok f1"
      "mineCount f1 = mineCount (engine_field e)"
      "wf_field f'" "params f' = engine_params e"
      "\<forall>q. isInBoundary f1 q \<longrightarrow>
        cellAt f' q = (if st = Playing \<and> \<not> isFlagged (cellAt f1 p) \<and> q \<in> revealSet f1 p
                       then opened (cellAt f1 q) else cellAt f1 q)"
      "applyAction r = (\<lambda>this. this\<lparr>engine_status := determineStatus e (getState f'),
                                   engine_field := f',
                                   flagsRemaining := getFlagsRemaining this (getState f')\<rparr>)"
    by auto
  have sm: "same_mines f1 f'" using r(2,6,7) by (simp add: same_mines_def)
  have "adjacency_ok f'" by (rule adjacency_ok_same_mines[OF r(1) r(5) sm r(3)])
  moreover have "mineCount f' = mineCount (engine_field e)"
    using mineCount_same_mines[OF r(1) r(5) sm] r(4) by simp
  ultimately show ?thesis using we r(5,6) by (simp add: r(8) wf_engine_def)
qed

lemma toggleFlag_wf_engine:
  assumes we: "wf_engine e" and pb: "isInBoundary (engine_field e) p"
    and tf: "toggleFlag e p = Some r"
  shows "wf_engine (applyAction r e) \<and> engine_params (applyAction r e) = engine_params e"
proof -
  from we have wf: "wf_field (engine_field e)" and ps: "params (engine_field e) = engine_params e"
    and adj: "adjacency_ok (engine_field e)" by (simp_all add: wf_engine_def)
  from toggleFlag_sem[OF we pb] tf obtain f' where
    r: "wf_field f'" "params f' = engine_params e"
      "\<forall>q. isInBoundary (engine_field e) q \<longrightarrow>
        cellAt f' q =
          (if q = p \<and> engine_status e = Playing \<and> \<not> isRevealed (cellAt (engine_field e) p)
           then (if isFlagged (cellAt (engine_field e) p)
                 then (cellAt (engine_field e) p)\<lparr>isFlagged := False\<rparr>
                 else if flagsRemaining e > 0
                 then (cellAt (engine_field e) p)\<lparr>isFlagged := True\<rparr>
                 else cellAt (engine_field e) p)
           else cellAt (engine_field e) q)"
      "applyAction r = (\<lambda>this. this\<lparr>engine_field := f',
                                   flagsRemaining := getFlagsRemaining this (getState f')\<rparr>)"
    by auto
  have sm: "same_mines (engine_field e) f'" using r(2,3) ps by (simp add: same_mines_def)
  have "adjacency_ok f'" by (rule adjacency_ok_same_mines[OF wf r(1) sm adj])
  moreover have "mineCount f' = mineCount (engine_field e)"
    by (rule mineCount_same_mines[OF wf r(1) sm])
  ultimately show ?thesis using we r(1,2) by (simp add: r(4) wf_engine_def)
qed

section \<open>The claims about the field and the engine\<close>

text \<open>
  Claim C7 (invariant I1). In a well-formed field the invariant says that the
  \<open>adjacentMines\<close> of every cell inside the boundary is the number of its siblings that
  are mines. It holds for the grid that the constructor builds. \<open>mineCell\<close> and
  \<open>unMineCell\<close> return for a position inside the boundary; \<open>mineCell\<close> makes the cell a
  mine and adds one to the \<open>adjacentMines\<close> of its siblings, \<open>unMineCell\<close> makes the cell
  no mine and takes one from the \<open>adjacentMines\<close> of its siblings, and both leave the
  other mines and numbers as they are. \<open>mineCell\<close> on a cell that is no mine and
  \<open>unMineCell\<close> on a mine keep the invariant, the number of mines going up and down by
  one. \<open>placeMines\<close> keeps the invariant. \<open>relocateMine\<close> from a mine to a cell that is
  no mine (the only use the engine makes of it) keeps the invariant and the number of
  mines: afterwards the first cell is no mine, the second is one, and the others are as
  before. An engine built without saved data is well formed, which includes the
  invariant; so is an engine restored from saved data that are a well-formed grid
  satisfying the invariant; and the commit of every \<open>revealCell\<close> and \<open>toggleFlag\<close> action
  on a well-formed engine leaves a well-formed engine.
\<close>

theorem adjacency_invariant:
  "(\<forall>f. wf_field f \<longrightarrow>
      (adjacency_ok f \<longleftrightarrow>
         (\<forall>p. isInBoundary f p \<longrightarrow>
            adjacentMines (cellAt f p)
              = int (length (filter (\<lambda>s. isMine (cellAt f s)) (nbrs f p)))))) \<and>
   (\<forall>ps. adjacency_ok (new_SquareField ps None)) \<and>
   (\<forall>f p. wf_field f \<and> isInBoundary f p \<longrightarrow>
      (\<exists>f'. mineCell f p = Some f') \<and> (\<exists>f'. unMineCell f p = Some f')) \<and>
   (\<forall>f p f' q. wf_field f \<and> isInBoundary f p \<and> mineCell f p = Some f' \<and> isInBoundary f q \<longrightarrow>
      isMine (cellAt f' q) = (q = p \<or> isMine (cellAt f q)) \<and>
      adjacentMines (cellAt f' q)
        = adjacentMines (cellAt f q) + (if q \<in> set (nbrs f p) then 1 else 0)) \<and>
   (\<forall>f p f' q. wf_field f \<and> isInBoundary f p \<and> unMineCell f p = Some f' \<and> isInBoundary f q \<longrightarrow>
      isMine (cellAt f' q) = (q \<noteq> p \<and> isMine (cellAt f q)) \<and>
      adjacentMines (cellAt f' q)
        = adjacentMines (cellAt f q) - (if q \<in> set (nbrs f p) then 1 else 0)) \<and>
   (\<forall>f p f'. wf_field f \<and> adjacency_ok f \<and> isInBoundary f p \<and> \<not> isMine (cellAt f p) \<and>
      mineCell f p = Some f' \<longrightarrow>
      wf_field f' \<and> adjacency_ok f' \<and> mineCount f' = mineCount f + 1) \<and>
   (\<forall>f p f'. wf_field f \<and> adjacency_ok f \<and> isInBoundary f p \<and> isMine (cellAt f p) \<and>
      unMineCell f p = Some f' \<longrightarrow>
      wf_field f' \<and> adjacency_ok f' \<and> int (mineCount f') = int (mineCount f) - 1) \<and>
   (\<forall>g f f' g'. wf_field f \<and> adjacency_ok f \<and> (\<not> isMined f \<longrightarrow> mineCount f = 0) \<and>
      placeMines g f = Some (f', g') \<longrightarrow> wf_field f' \<and> adjacency_ok f') \<and>
   (\<forall>f a b f'. wf_field f \<and> adjacency_ok f \<and> isInBoundary f a \<and> isInBoundary f b \<and>
      isMine (cellAt f a) \<and> \<not> isMine (cellAt f b) \<and> relocateMine f a b = Some f' \<longrightarrow>
      wf_field f' \<and> adjacency_ok f' \<and> mineCount f' = mineCount f \<and>
      (\<forall>q. isInBoundary f q \<longrightarrow>
         isMine (cellAt f' q) = (q = b \<or> (q \<noteq> a \<and> isMine (cellAt f q))))) \<and>
   (\<forall>cfg g e g'. config_data cfg = None \<and> new_GameEngine cfg g = Some (e, g') \<longrightarrow>
      wf_engine e \<and> adjacency_ok (engine_field e)) \<and>
   (\<forall>cfg d g e g'. config_data cfg = Some d \<and>
      wf_field (new_SquareField (config_params cfg) (Some d)) \<and>
      adjacency_ok (new_SquareField (config_params cfg) (Some d)) \<and>
      new_GameEngine cfg g = Some (e, g') \<longrightarrow>
      wf_engine e \<and> adjacency_ok (engine_field e)) \<and>
   (\<forall>e g p r g'. wf_engine e \<and> isInBoundary (engine_field e) p \<and>
      revealCell e g p = Some (r, g') \<longrightarrow>
      wf_engine (applyAction r e) \<and> adjacency_ok (engine_field (applyAction r e))) \<and>
   (\<forall>e p r. wf_engine e \<and> isInBoundary (engine_field e) p \<and> toggleFlag e p = Some r \<longrightarrow>
      wf_engine (applyAction r e) \<and> adjacency_ok (engine_field (applyAction r e)))"
proof (intro conjI allI impI)
  fix f assume "wf_field f"
  then show "adjacency_ok f \<longleftrightarrow>
         (\<forall>p. isInBoundary f p \<longrightarrow>
            adjacentMines (cellAt f p)
              = int (length (filter (\<lambda>s. isMine (cellAt f s)) (nbrs f p))))"
    by (simp add: adjacency_ok_iff minedNbrs_def)
next
  fix ps show "adjacency_ok (new_SquareField ps None)"
    using new_SquareField_fresh by blast
next
  fix f p assume a: "wf_field f \<and> isInBoundary f p"
  show "\<exists>f'. mineCell f p = Some f'" using mineCell_wf[of f p] a by blast
  show "\<exists>f'. unMineCell f p = Some f'" using unMineCell_wf[of f p] a by blast
next
  fix f p f' q
  assume a: "wf_field f \<and> isInBoundary f p \<and> mineCell f p = Some f' \<and> isInBoundary f q"
  then have "\<exists>f'. mineCell f p = Some f' \<and> wf_field f' \<and> params f' = params f \<and>
           isMined f' = isMined f \<and>
           (\<forall>q. isInBoundary f q \<longrightarrow>
              cellAt f' q = (cellAt f q)\<lparr>isMine := (q = p \<or> isMine (cellAt f q)),
                               adjacentMines := adjacentMines (cellAt f q)
                                  + (if q \<in> set (nbrs f p) then 1 else 0)\<rparr>)"
    using mineCell_wf by blast
  with a have c: "cellAt f' q = (cellAt f q)\<lparr>isMine := (q = p \<or> isMine (cellAt f q)),
                               adjacentMines := adjacentMines (cellAt f q)
                                  + (if q \<in> set (nbrs f p) then 1 else 0)\<rparr>"
    by auto
  show "isMine (cellAt f' q) = (q = p \<or> isMine (cellAt f q))" unfolding c by simp
  show "adjacentMines (cellAt f' q)
        = adjacentMines (cellAt f q) + (if q \<in> set (nbrs f p) then 1 else 0)"
    unfolding c by simp
next
  fix f p f' q
  assume a: "wf_field f \<and> isInBoundary f p \<and> unMineCell f p = Some f' \<and> isInBoundary f q"
  then have "\<exists>f'. unMineCell f p = Some f' \<and> wf_field f' \<and> params f' = params f \<and>
           isMined f' = isMined f \<and>
           (\<forall>q. isInBoundary f q \<longrightarrow>
              cellAt f' q = (cellAt f q)\<lparr>isMine := (q \<noteq> p \<and> isMine (cellAt f q)),
                               adjacentMines := adjacentMines (cellAt f q)
                                  - (if q \<in> set (nbrs f p) then 1 else 0)\<rparr>)"
    using unMineCell_wf by blast
  with a have c: "cellAt f' q = (cellAt f q)\<lparr>isMine := (q \<noteq> p \<and> isMine (cellAt f q)),
                               adjacentMines := adjacentMines (cellAt f q)
                                  - (if q \<in> set (nbrs f p) then 1 else 0)\<rparr>"
    by auto
  show "isMine (cellAt f' q) = (q \<noteq> p \<and> isMine (cellAt f q))" unfolding c by simp
  show "adjacentMines (cellAt f' q)
        = adjacentMines (cellAt f q) - (if q \<in> set (nbrs f p) then 1 else 0)"
    unfolding c by simp
next
  fix f p f'
  assume a: "wf_field f \<and> adjacency_ok f \<and> isInBoundary f p \<and> \<not> isMine (cellAt f p) \<and>
      mineCell f p = Some f'"
  show "wf_field f'" using mineCell_wf[of f p] a by auto
  show "adjacency_ok f'" using mineCell_adjacency[of f p f'] a by blast
  show "mineCount f' = mineCount f + 1" using mineCell_count[of f p f'] a by blast
next
  fix f p f'
  assume a: "wf_field f \<and> adjacency_ok f \<and> isInBoundary f p \<and> isMine (cellAt f p) \<and>
      unMineCell f p = Some f'"
  show "wf_field f'" using unMineCell_wf[of f p] a by auto
  show "adjacency_ok f'" using unMineCell_adjacency[of f p f'] a by blast
  show "int (mineCount f') = int (mineCount f) - 1" using unMineCell_count[of f p f'] a by blast
next
  fix g f f' g'
  assume a: "wf_field f \<and> adjacency_ok f \<and> (\<not> isMined f \<longrightarrow> mineCount f = 0) \<and>
      placeMines g f = Some (f', g')"
  then have "wf_field f' \<and> adjacency_ok f' \<and> params f' = params f \<and> isMined f' \<and>
         int (mineCount f') = (if isMined f then int (mineCount f) else max 0 (mines (params f)))"
    using placeMines_inv[of g f f' g'] by blast
  then show "wf_field f'" "adjacency_ok f'" by simp_all
next
  fix f a b f'
  assume a: "wf_field f \<and> adjacency_ok f \<and> isInBoundary f a \<and> isInBoundary f b \<and>
      isMine (cellAt f a) \<and> \<not> isMine (cellAt f b) \<and> relocateMine f a b = Some f'"
  then have "\<exists>f'. relocateMine f a b = Some f' \<and> wf_field f' \<and> params f' = params f \<and>
           isMined f' = isMined f \<and> adjacency_ok f' \<and> mineCount f' = mineCount f \<and>
           (\<forall>q. isInBoundary f q \<longrightarrow>
              isMine (cellAt f' q) = (q = b \<or> (q \<noteq> a \<and> isMine (cellAt f q))) \<and>
              isRevealed (cellAt f' q) = isRevealed (cellAt f q) \<and>
              isFlagged (cellAt f' q) = isFlagged (cellAt f q))"
    using relocateMine_wf[of f a b] by blast
  with a show "wf_field f'" "adjacency_ok f'" "mineCount f' = mineCount f"
    by auto
next
  fix f a b f' q
  assume a: "wf_field f \<and> adjacency_ok f \<and> isInBoundary f a \<and> isInBoundary f b \<and>
      isMine (cellAt f a) \<and> \<not> isMine (cellAt f b) \<and> relocateMine f a b = Some f'"
    and q: "isInBoundary f q"
  from a have "\<exists>f'. relocateMine f a b = Some f' \<and> wf_field f' \<and> params f' = params f \<and>
           isMined f' = isMined f \<and> adjacency_ok f' \<and> mineCount f' = mineCount f \<and>
           (\<forall>q. isInBoundary f q \<longrightarrow>
              isMine (cellAt f' q) = (q = b \<or> (q \<noteq> a \<and> isMine (cellAt f q))) \<and>
              isRevealed (cellAt f' q) = isRevealed (cellAt f q) \<and>
              isFlagged (cellAt f' q) = isFlagged (cellAt f q))"
    using relocateMine_wf[of f a b] by blast
  with a q show "isMine (cellAt f' q) = (q = b \<or> (q \<noteq> a \<and> isMine (cellAt f q)))"
    by auto
next
  fix cfg g e g'
  assume "config_data cfg = None \<and> new_GameEngine cfg g = Some (e, g')"
  then have "wf_engine e" using new_GameEngine_fresh by blast
  then show "wf_engine e" "adjacency_ok (engine_field e)" by (simp_all add: wf_engine_def)
next
  fix cfg d g e g'
  assume a: "config_data cfg = Some d \<and>
      wf_field (new_SquareField (config_params cfg) (Some d)) \<and>
      adjacency_ok (new_SquareField (config_params cfg) (Some d)) \<and>
      new_GameEngine cfg g = Some (e, g')"
  then show "wf_engine e" using new_GameEngine_restored[of cfg g e g' d] by blast
  then show "adjacency_ok (engine_field e)" by (simp add: wf_engine_def)
next
  fix e g p r g'
  assume "wf_engine e \<and> isInBoundary (engine_field e) p \<and> revealCell e g p = Some (r, g')"
  then have "wf_engine (applyAction r e)" using revealCell_wf_engine by blast
  then show "wf_engine (applyAction r e)" "adjacency_ok (engine_field (applyAction r e))"
    by (simp_all add: wf_engine_def)
next
  fix e p r
  assume "wf_engine e \<and> isInBoundary (engine_field e) p \<and> toggleFlag e p = Some r"
  then have "wf_engine (applyAction r e)" using toggleFlag_wf_engine by blast
  then show "wf_engine (applyAction r e)" "adjacency_ok (engine_field (applyAction r e))"
    by (simp_all add: wf_engine_def)
qed

lemma engine33_wf: "wf_engine engine33"
  by code_simp

lemma engine33_boundary: "isInBoundary (engine_field engine33) \<lparr>col = 0, row = 0\<rparr>"
  by code_simp

lemma field33_facts:
  "isInBoundary (engine_field engine33) \<lparr>col = 1, row = 1\<rparr>"
  "isInBoundary (engine_field engine33) \<lparr>col = 2, row = 2\<rparr>"
  "isMine (cellAt (engine_field engine33) \<lparr>col = 0, row = 0\<rparr>)"
  "\<not> isMine (cellAt (engine_field engine33) \<lparr>col = 2, row = 2\<rparr>)"
  "adjacentMines (cellAt (engine_field engine33) \<lparr>col = 1, row = 1\<rparr>) = 1"
  "\<lparr>col = 1, row = 1\<rparr> \<in> set (nbrs (engine_field engine33) \<lparr>col = 0, row = 0\<rparr>)"
  "mineCount (engine_field engine33) = 1"
  by code_simp+

theorem adjacency_invariant_witness:
  "(\<exists>r g'. revealCell engine33 (\<lambda>n. 0) \<lparr>col = 0, row = 0\<rparr> = Some (r, g') \<and>
      wf_engine (applyAction r engine33) \<and>
      adjacency_ok (engine_field (applyAction r engine33))) \<and>
   (\<exists>f'. unMineCell (engine_field engine33) \<lparr>col = 0, row = 0\<rparr> = Some f' \<and>
      \<not> isMine (cellAt f' \<lparr>col = 0, row = 0\<rparr>) \<and>
      adjacentMines (cellAt f' \<lparr>col = 1, row = 1\<rparr>) = 0 \<and>
      adjacency_ok f' \<and> mineCount f' = 0) \<and>
   (\<exists>f'. relocateMine (engine_field engine33) \<lparr>col = 0, row = 0\<rparr> \<lparr>col = 2, row = 2\<rparr> = Some f' \<and>
      \<not> isMine (cellAt f' \<lparr>col = 0, row = 0\<rparr>) \<and> isMine (cellAt f' \<lparr>col = 2, row = 2\<rparr>) \<and>
      adjacency_ok f' \<and> mineCount f' = 1)"
proof (intro conjI)
  obtain r g' where rv: "revealCell engine33 (\<lambda>n. 0) \<lparr>col = 0, row = 0\<rparr> = Some (r, g')"
    using reveal33_evaluated by fastforce
  from adjacency_invariant engine33_wf engine33_boundary rv
  have "wf_engine (applyAction r engine33) \<and>
        adjacency_ok (engine_field (applyAction r engine33))" by blast
  with rv show "\<exists>r g'. revealCell engine33 (\<lambda>n. 0) \<lparr>col = 0, row = 0\<rparr> = Some (r, g') \<and>
      wf_engine (applyAction r engine33) \<and>
      adjacency_ok (engine_field (applyAction r engine33))" by blast
next
  let ?f = "engine_field engine33"
  let ?a = "\<lparr>col = 0, row = 0\<rparr>"
  let ?c = "\<lparr>col = 1, row = 1\<rparr>"
  note rest = adjacency_invariant[THEN conjunct2, THEN conjunct2]
  note returns = rest[THEN conjunct1, rule_format]
  note unmine = rest[THEN conjunct2, THEN conjunct2, THEN conjunct1, rule_format]
  note unmine_inv =
    rest[THEN conjunct2, THEN conjunct2, THEN conjunct2, THEN conjunct2, THEN conjunct1,
      rule_format]
  obtain f' where u: "unMineCell ?f ?a = Some f'"
    using returns[of ?f ?a] field33_wf engine33_boundary by blast
  have "isMine (cellAt f' ?a) = (?a \<noteq> ?a \<and> isMine (cellAt ?f ?a))"
    using unmine[of ?f ?a f' ?a] field33_wf engine33_boundary u by blast
  then have m: "\<not> isMine (cellAt f' ?a)" by simp
  have "adjacentMines (cellAt f' ?c)
        = adjacentMines (cellAt ?f ?c) - (if ?c \<in> set (nbrs ?f ?a) then 1 else 0)"
    using unmine[of ?f ?a f' ?c] field33_wf engine33_boundary field33_facts(1) u by blast
  then have n: "adjacentMines (cellAt f' ?c) = 0" using field33_facts(5,6) by simp
  have "adjacency_ok f' \<and> int (mineCount f') = int (mineCount ?f) - 1"
    using unmine_inv[of ?f ?a f'] field33_wf field33_adjacency engine33_boundary
      field33_facts(3) u by blast
  then have k: "adjacency_ok f'" "mineCount f' = 0" using field33_facts(7) by simp_all
  show "\<exists>f'. unMineCell ?f ?a = Some f' \<and> \<not> isMine (cellAt f' ?a) \<and>
      adjacentMines (cellAt f' ?c) = 0 \<and> adjacency_ok f' \<and> mineCount f' = 0"
    using u m n k by blast
next
  let ?f = "engine_field engine33"
  let ?a = "\<lparr>col = 0, row = 0\<rparr>"
  let ?b = "\<lparr>col = 2, row = 2\<rparr>"
  note relocate =
    adjacency_invariant[THEN conjunct2, THEN conjunct2, THEN conjunct2, THEN conjunct2,
      THEN conjunct2, THEN conjunct2, THEN conjunct2, THEN conjunct2, THEN conjunct1,
      rule_format]
  obtain f' where rl: "relocateMine ?f ?a ?b = Some f'"
    using relocateMine_wf[OF field33_wf engine33_boundary field33_facts(2) field33_adjacency
        field33_facts(3,4)] by blast
  have hyp: "wf_field ?f \<and> adjacency_ok ?f \<and> isInBoundary ?f ?a \<and> isInBoundary ?f ?b \<and>
      isMine (cellAt ?f ?a) \<and> \<not> isMine (cellAt ?f ?b) \<and> relocateMine ?f ?a ?b = Some f'"
    using field33_wf field33_adjacency engine33_boundary field33_facts(2,3,4) rl by simp
  have r: "adjacency_ok f'" "mineCount f' = mineCount ?f"
    using relocate[OF hyp] by simp_all
  have "isMine (cellAt f' ?a) = (?a = ?b \<or> (?a \<noteq> ?a \<and> isMine (cellAt ?f ?a)))"
    "isMine (cellAt f' ?b) = (?b = ?b \<or> (?b \<noteq> ?a \<and> isMine (cellAt ?f ?b)))"
    using relocate[OF hyp] engine33_boundary field33_facts(2) by blast+
  then have "\<not> isMine (cellAt f' ?a)" "isMine (cellAt f' ?b)" by simp_all
  then show "\<exists>f'. relocateMine ?f ?a ?b = Some f' \<and>
      \<not> isMine (cellAt f' ?a) \<and> isMine (cellAt f' ?b) \<and> adjacency_ok f' \<and> mineCount f' = 1"
    using rl r field33_facts(7) by auto
qed

lemma getSiblings_cells:
  assumes wf: "wf_field f"
  shows "\<exists>s. getSiblings f p = Some s \<and>
           (\<forall>q \<in> set s. isInBoundary f q \<and> getCell f q = Some (Some (cellAt f q)))"
  using getSiblings_wf[OF wf, of p] getCell_boundary[OF wf] nbrs_boundary by auto

lemma revealCell_outside:
  assumes we: "wf_engine e" and nb: "\<not> isInBoundary (engine_field e) p"
    and st: "engine_status e = Idle \<or> engine_status e = Playing"
  shows "revealCell e g p = None"
proof -
  let ?f = "engine_field e"
  from we have wf: "wf_field ?f" by (simp add: wf_engine_def)
  have go: "\<And>f1. wf_field f1 \<Longrightarrow> params f1 = params ?f \<Longrightarrow> getCellObj f1 p = None"
    using nb getCellObj_outside isInBoundary_params by metis
  show ?thesis
  proof (cases "engine_status e = Idle")
    case True
    have "firstClick (cloneSelf ?f) g p = None"
    proof (cases "if \<not> isMined (cloneSelf ?f) then placeMines g (cloneSelf ?f)
                  else Some (cloneSelf ?f, g)")
      case None
      then show ?thesis by (simp add: firstClick_def)
    next
      case (Some y)
      obtain f1 g1 where y: "y = (f1, g1)" by (cases y)
      have "wf_field f1 \<and> params f1 = params ?f"
      proof (cases "isMined (cloneSelf ?f)")
        case True
        with Some y have "f1 = cloneSelf ?f" by simp
        with wf show ?thesis by simp
      next
        case False
        with Some y have pm: "placeMines g (cloneSelf ?f) = Some (f1, g1)" by simp
        have "\<not> isMined (cloneSelf ?f) \<longrightarrow> mineCount (cloneSelf ?f) = 0"
          by (simp add: cloneSelf_wf)
        from placeMines_inv[OF pm _ _ this] wf we show ?thesis
          by (simp add: wf_engine_def)
      qed
      then have "getCellData f1 p = None" using go by (simp add: getCellData_def)
      then show ?thesis using Some y by (simp add: firstClick_def)
    qed
    then show ?thesis using True by (simp add: revealCell_def)
  next
    case False
    with st have pl: "engine_status e = Playing" by simp
    have "getCellObj (cloneSelf ?f) p = None" using go[of "cloneSelf ?f"] wf by simp
    then show ?thesis using pl
      by (auto simp: revealCell_def getCellObj_def split: option.splits)
  qed
qed

text \<open>
  Claim C10. In a well-formed engine, for a position inside the boundary, \<open>revealCell\<close>,
  \<open>toggleFlag\<close>, \<open>getCell\<close>, \<open>getAreaToReveal\<close> and \<open>getSiblings\<close> return a result: no grid
  access falls outside the grid, the siblings and the cells of the area being inside
  the boundary. The operations do not check their argument: for a position outside the
  boundary \<open>toggleFlag\<close> and \<open>getAreaToReveal\<close> raise, and so does \<open>revealCell\<close> when the
  status is \<open>Idle\<close> or \<open>Playing\<close>.
\<close>

theorem bounds_safety:
  assumes "wf_engine e"
  shows "(isInBoundary (engine_field e) p \<longrightarrow>
            (\<exists>r. revealCell e g p = Some (r, g)) \<and>
            (\<exists>r. toggleFlag e p = Some r) \<and>
            getCell (engine_field e) p = Some (Some (cellAt (engine_field e) p)) \<and>
            (\<exists>area. getAreaToReveal (engine_field e) p = Some area \<and>
               (\<forall>q \<in> set area. isInBoundary (engine_field e) q \<and>
                  getCell (engine_field e) q = Some (Some (cellAt (engine_field e) q))))) \<and>
         (\<exists>s. getSiblings (engine_field e) p = Some s \<and>
            (\<forall>q \<in> set s. isInBoundary (engine_field e) q \<and>
               getCell (engine_field e) q = Some (Some (cellAt (engine_field e) q)))) \<and>
         (\<not> isInBoundary (engine_field e) p \<longrightarrow>
            toggleFlag e p = None \<and> getAreaToReveal (engine_field e) p = None \<and>
            getCellObj (engine_field e) p = None \<and>
            (engine_status e = Idle \<or> engine_status e = Playing \<longrightarrow> revealCell e g p = None))"
proof (intro conjI impI)
  let ?f = "engine_field e"
  from assms have wf: "wf_field ?f" by (simp add: wf_engine_def)
  {
    assume pb: "isInBoundary ?f p"
    show "\<exists>r. revealCell e g p = Some (r, g)"
      using revealCell_sem[OF assms pb, of g] by blast
    show "\<exists>r. toggleFlag e p = Some r"
      using toggleFlag_sem[OF assms pb] by blast
    show "getCell ?f p = Some (Some (cellAt ?f p))" by (rule getCell_boundary[OF wf pb])
    from getAreaToReveal_areaSet[OF wf pb] obtain area where
      a: "getAreaToReveal ?f p = Some area" "set area = areaSet ?f p" by blast
    have "\<forall>q \<in> set area. isInBoundary ?f q \<and> getCell ?f q = Some (Some (cellAt ?f q))"
      using a(2) areaSet_boundary[OF pb] getCell_boundary[OF wf] by blast
    with a(1) show "\<exists>area. getAreaToReveal ?f p = Some area \<and>
               (\<forall>q \<in> set area. isInBoundary ?f q \<and> getCell ?f q = Some (Some (cellAt ?f q)))"
      by blast
  }
  show "\<exists>s. getSiblings ?f p = Some s \<and>
            (\<forall>q \<in> set s. isInBoundary ?f q \<and> getCell ?f q = Some (Some (cellAt ?f q)))"
    by (rule getSiblings_cells[OF wf])
  {
    assume nb: "\<not> isInBoundary ?f p"
    have go: "getCellObj ?f p = None" by (rule getCellObj_outside[OF wf nb])
    show "getCellObj ?f p = None" by (rule go)
    show "getAreaToReveal ?f p = None" by (simp add: getAreaToReveal_def go)
    have "getCellObj (cloneSelf ?f) p = None"
      using getCellObj_outside[of "cloneSelf ?f" p] wf nb by simp
    then show "toggleFlag e p = None" by (simp add: toggleFlag_def)
    assume "engine_status e = Idle \<or> engine_status e = Playing"
    then show "revealCell e g p = None" by (rule revealCell_outside[OF assms nb])
  }
qed

theorem bounds_safety_witness:
  "(\<exists>r. revealCell engine33 (\<lambda>n. 0) \<lparr>col = 0, row = 0\<rparr> = Some (r, \<lambda>n. 0)) \<and>
   (\<exists>r. toggleFlag engine33 \<lparr>col = 0, row = 0\<rparr> = Some r) \<and>
   toggleFlag engine33 \<lparr>col = 3, row = 0\<rparr> = None \<and>
   revealCell engine33 (\<lambda>n. 0) \<lparr>col = 0, row = -1\<rparr> = None"
proof -
  have nb: "\<not> isInBoundary (engine_field engine33) \<lparr>col = 3, row = 0\<rparr>"
    "\<not> isInBoundary (engine_field engine33) \<lparr>col = 0, row = -1\<rparr>" by code_simp+
  have st: "engine_status engine33 = Idle" by (simp add: engine33_def)
  show ?thesis
    using bounds_safety[OF engine33_wf, of "\<lparr>col = 0, row = 0\<rparr>" "\<lambda>n. 0"]
      bounds_safety[OF engine33_wf, of "\<lparr>col = 3, row = 0\<rparr>" "\<lambda>n. 0"]
      bounds_safety[OF engine33_wf, of "\<lparr>col = 0, row = -1\<rparr>" "\<lambda>n. 0"]
      engine33_boundary nb st
    by simp
qed

lemma region_cong:
  assumes n: "nbrs f' = nbrs f" and c: "cellAt f' = cellAt f"
  shows "region f' p = region f p"
proof -
  have "q \<in> region f' p \<Longrightarrow> q \<in> region f p" for q
    by (induction rule: region.induct) (auto intro: region.intros simp: n c)
  moreover have "q \<in> region f p \<Longrightarrow> q \<in> region f' p" for q
    by (induction rule: region.induct) (auto intro: region.intros simp: n[symmetric] c[symmetric])
  ultimately show ?thesis by blast
qed

lemma nbrs_cloneSelf [simp]: "nbrs (cloneSelf f) = nbrs f"
  by (rule nbrs_params) simp

lemma region_cloneSelf [simp]: "region (cloneSelf f) p = region f p"
  by (rule region_cong) simp_all

lemma border_cloneSelf [simp]: "border (cloneSelf f) p = border f p"
  by (simp add: border_def)

lemma areaSet_cloneSelf [simp]: "areaSet (cloneSelf f) p = areaSet f p"
  by (simp add: areaSet_def)

lemma chordSet_cloneSelf [simp]: "chordSet (cloneSelf f) ns = chordSet f ns"
  by (simp add: chordSet_def)

lemma flagCount_cloneSelf [simp]: "flagCount (cloneSelf f) p = flagCount f p"
  by (simp add: flagCount_def)

lemma revealSet_cloneSelf [simp]: "revealSet (cloneSelf f) p = revealSet f p"
  by (simp add: revealSet_def)

lemma revealExploded_cloneSelf [simp]: "revealExploded (cloneSelf f) p = revealExploded f p"
  by (simp add: revealExploded_def)

lemma field_getState [simp]: "field (getState f) = grid f"
  by (simp add: getState_def Let_def getData_def [abs_def])

lemma field_withStatus [simp]: "field (withStatus s st) = field s"
  by (simp add: withStatus_def)

lemma status_withStatus [simp]: "status (withStatus s st) = st"
  by (simp add: withStatus_def)

text \<open>What a reveal does when the status is not \<open>Idle\<close>.\<close>

lemma revealCell_started:
  assumes we: "wf_engine e" and pb: "isInBoundary (engine_field e) p"
    and ni: "engine_status e \<noteq> Idle"
  shows "\<exists>r f'.
     revealCell e g p = Some (r, g) \<and>
     wf_field f' \<and> params f' = engine_params e \<and>
     (\<forall>q. isInBoundary (engine_field e) q \<longrightarrow>
        cellAt f' q = (if engine_status e = Playing \<and> \<not> isFlagged (cellAt (engine_field e) p) \<and>
                          q \<in> revealSet (engine_field e) p
                       then opened (cellAt (engine_field e) q) else cellAt (engine_field e) q)) \<and>
     actionSnapshot (data r) = withStatus (getState f') (determineStatus e (getState f')) \<and>
     applyAction r = (\<lambda>this. this\<lparr>engine_status := determineStatus e (getState f'),
                                   engine_field := f',
                                   flagsRemaining := getFlagsRemaining this (getState f')\<rparr>) \<and>
     delta_explodedCells (actionChanges (data r))
       = (if engine_status e = Playing \<and> \<not> isFlagged (cellAt (engine_field e) p)
          then revealExploded (engine_field e) p else []) \<and>
     delta_flaggedCells (actionChanges (data r)) = [] \<and>
     (engine_status e \<noteq> Playing \<or> isFlagged (cellAt (engine_field e) p) \<or>
      (\<not> isMine (cellAt (engine_field e) p) \<and> isRevealed (cellAt (engine_field e) p) \<and>
       int (flagCount (engine_field e) p) \<noteq> adjacentMines (cellAt (engine_field e) p)) \<longrightarrow>
        grid f' = grid (engine_field e) \<and> delta_revealedCells (actionChanges (data r)) = [] \<and>
        delta_unflaggedCells (actionChanges (data r)) = [] \<and>
        handledCells (actionChanges (data r)) = [])"
proof -
  have pr: "preReveal e g p = Some (engine_status e, cloneSelf (engine_field e), g)"
    using ni by (simp add: preReveal_def)
  from revealCell_sem[OF we pb, of g] obtain r st f1 f' where
    a: "revealCell e g p = Some (r, g)" "preReveal e g p = Some (st, f1, g)"
     "wf_field f'" "params f' = engine_params e"
     "\<forall>q. isInBoundary f1 q \<longrightarrow>
        cellAt f' q = (if st = Playing \<and> \<not> isFlagged (cellAt f1 p) \<and> q \<in> revealSet f1 p
                       then opened (cellAt f1 q) else cellAt f1 q)"
     "actionSnapshot (data r) = withStatus (getState f') (determineStatus e (getState f'))"
     "applyAction r = (\<lambda>this. this\<lparr>engine_status := determineStatus e (getState f'),
                                   engine_field := f',
                                   flagsRemaining := getFlagsRemaining this (getState f')\<rparr>)"
     "delta_explodedCells (actionChanges (data r))
       = (if st = Playing \<and> \<not> isFlagged (cellAt f1 p) then revealExploded f1 p else [])"
     "delta_flaggedCells (actionChanges (data r)) = []"
     "st \<noteq> Playing \<or> isFlagged (cellAt f1 p) \<or>
      (\<not> isMine (cellAt f1 p) \<and> isRevealed (cellAt f1 p) \<and>
       int (flagCount f1 p) \<noteq> adjacentMines (cellAt f1 p)) \<longrightarrow>
        f' = f1 \<and> delta_revealedCells (actionChanges (data r)) = [] \<and>
        delta_unflaggedCells (actionChanges (data r)) = [] \<and>
        handledCells (actionChanges (data r)) = []"
    by blast
  from a(2) pr have st: "st = engine_status e" and f1: "f1 = cloneSelf (engine_field e)"
    by simp_all
  show ?thesis
    apply (rule exI[of _ r], rule exI[of _ f'])
    using a(1,3-) unfolding st f1 by auto
qed

text \<open>
  An engine in play: the field of \<open>engine33\<close> with the status \<open>Playing\<close>, the mine at
  \<open>(0, 0)\<close> flagged, the numbered cell at row 1, column 1 revealed and no flag left.
\<close>

definition engine33_playing :: GameEngine where
  "engine33_playing =
     \<lparr>engine_params = \<lparr>cols = 3, rows = 3, mines = 1\<rparr>,
      engine_field =
        \<lparr>params = \<lparr>cols = 3, rows = 3, mines = 1\<rparr>,
         grid = [[mkCell 0 0 True False True 0, mkCell 0 1 False False False 1,
                  mkCell 0 2 False False False 0],
                 [mkCell 1 0 False False False 1, mkCell 1 1 False True False 1,
                  mkCell 1 2 False False False 0],
                 [mkCell 2 0 False False False 0, mkCell 2 1 False False False 0,
                  mkCell 2 2 False False False 0]],
         isMined = True\<rparr>,
      engine_status = Playing, flagsRemaining = 0\<rparr>"

lemma engine33_playing_wf: "wf_engine engine33_playing"
  by code_simp

text \<open>
  A saved game restored by the constructor: one row, a flagged mine at column 0 and a
  numbered cell at column 1. The constructor leaves the status \<open>Idle\<close>.
\<close>

definition cfg12 :: FactoryConfig where
  "cfg12 = \<lparr>config_params = \<lparr>cols = 2, rows = 1, mines = 1\<rparr>,
            config_data = Some [[mkCell 0 0 True False True 0, mkCell 0 1 False False False 1]]\<rparr>"

definition engine12 :: GameEngine where
  "engine12 =
     \<lparr>engine_params = \<lparr>cols = 2, rows = 1, mines = 1\<rparr>,
      engine_field =
        \<lparr>params = \<lparr>cols = 2, rows = 1, mines = 1\<rparr>,
         grid = [[mkCell 0 0 True False True 0, mkCell 0 1 False False False 1]],
         isMined = True\<rparr>,
      engine_status = Idle, flagsRemaining = 1\<rparr>"

text \<open>
  What a reveal does when step 1 relocates no mine: the status is not \<open>Idle\<close>, or the
  target is no mine, or every cell is a mine.
\<close>

lemma revealCell_unrelocated:
  assumes we: "wf_engine e" and pb: "isInBoundary (engine_field e) p"
    and nr: "engine_status e \<noteq> Idle \<or> \<not> isMine (cellAt (engine_field e) p) \<or>
             (\<forall>q. isInBoundary (engine_field e) q \<longrightarrow> isMine (cellAt (engine_field e) q))"
  shows "\<exists>r st f'.
     revealCell e g p = Some (r, g) \<and>
     st = (if engine_status e \<noteq> Idle then engine_status e
           else if isMine (cellAt (engine_field e) p) then Lost else Playing) \<and>
     actionSnapshot (data r) = withStatus (getState f') (determineStatus e (getState f')) \<and>
     delta_explodedCells (actionChanges (data r))
       = (if st = Playing \<and> \<not> isFlagged (cellAt (engine_field e) p)
          then revealExploded (engine_field e) p else []) \<and>
     delta_flaggedCells (actionChanges (data r)) = [] \<and>
     (st \<noteq> Playing \<or> isFlagged (cellAt (engine_field e) p) \<or>
      (\<not> isMine (cellAt (engine_field e) p) \<and> isRevealed (cellAt (engine_field e) p) \<and>
       int (flagCount (engine_field e) p) \<noteq> adjacentMines (cellAt (engine_field e) p)) \<longrightarrow>
        grid f' = grid (engine_field e) \<and> delta_revealedCells (actionChanges (data r)) = [] \<and>
        delta_unflaggedCells (actionChanges (data r)) = [] \<and>
        handledCells (actionChanges (data r)) = [])"
proof -
  let ?f = "engine_field e"
  from we have wf: "wf_field ?f" and adj: "adjacency_ok ?f"
    and pl: "0 < mineCount ?f \<or> mines (params ?f) \<le> 0"
    by (simp_all add: wf_engine_def)
  from revealCell_sem[OF we pb, of g] obtain r st f1 f' where
    a: "revealCell e g p = Some (r, g)" "preReveal e g p = Some (st, f1, g)"
     "wf_field f1" "params f1 = engine_params e"
     "actionSnapshot (data r) = withStatus (getState f') (determineStatus e (getState f'))"
     "delta_explodedCells (actionChanges (data r))
       = (if st = Playing \<and> \<not> isFlagged (cellAt f1 p) then revealExploded f1 p else [])"
     "delta_flaggedCells (actionChanges (data r)) = []"
     "st \<noteq> Playing \<or> isFlagged (cellAt f1 p) \<or>
      (\<not> isMine (cellAt f1 p) \<and> isRevealed (cellAt f1 p) \<and>
       int (flagCount f1 p) \<noteq> adjacentMines (cellAt f1 p)) \<longrightarrow>
        f' = f1 \<and> delta_revealedCells (actionChanges (data r)) = [] \<and>
        delta_unflaggedCells (actionChanges (data r)) = [] \<and>
        handledCells (actionChanges (data r)) = []"
    by blast
  have pe: "params ?f = engine_params e" using we by (simp add: wf_engine_def)
  have same: "(\<forall>q. isInBoundary ?f q \<longrightarrow> cellAt f1 q = cellAt ?f q) \<and>
              st = (if engine_status e \<noteq> Idle then engine_status e
           else if isMine (cellAt (engine_field e) p) then Lost else Playing)"
  proof (cases "engine_status e = Idle")
    case False
    with a(2) show ?thesis by (auto simp: preReveal_def)
  next
    case True
    with a(2) have fc: "firstClick (cloneSelf ?f) g p = Some (st, f1, g)"
      by (simp add: preReveal_def)
    from firstClick_wf[OF wf adj pb pl, of g] fc
    have k: "\<not> isMine (cellAt ?f p) \<longrightarrow>
               st = Playing \<and> (\<forall>q. isInBoundary ?f q \<longrightarrow> cellAt f1 q = cellAt ?f q)"
         "isMine (cellAt ?f p) \<and> (\<forall>q. isInBoundary ?f q \<longrightarrow> isMine (cellAt ?f q)) \<longrightarrow>
               st = Lost \<and> (\<forall>q. isInBoundary ?f q \<longrightarrow> cellAt f1 q = cellAt ?f q)"
      by auto
    show ?thesis
    proof (cases "isMine (cellAt ?f p)")
      case False
      with k(1) True show ?thesis by simp
    next
      case mine: True
      with nr True have "\<forall>q. isInBoundary ?f q \<longrightarrow> isMine (cellAt ?f q)" by simp
      with k(2) mine True show ?thesis by simp
    qed
  qed
  have gr: "grid f1 = grid ?f"
    by (rule field_ext[OF wf a(3)]) (simp_all add: a(4) pe same)
  then have ca: "cellAt f1 = cellAt ?f" by (simp add: cellAt_def [abs_def])
  have nb: "nbrs f1 = nbrs ?f" by (rule nbrs_params) (simp add: a(4) pe)
  have fl: "flagCount f1 p = flagCount ?f p" by (simp add: flagCount_def ca nb)
  have re: "revealExploded f1 p = revealExploded ?f p"
    by (simp add: revealExploded_def ca nb fl)
  show ?thesis
    apply (rule exI[of _ r], rule exI[of _ st], rule exI[of _ f'])
    using a(1,5-) same unfolding ca fl re gr[symmetric] by auto
qed

lemma revealCell_flagged_deltas:
  assumes we: "wf_engine e" and pb: "isInBoundary (engine_field e) p"
    and fl: "isFlagged (cellAt (engine_field e) p)"
  shows "\<exists>r. revealCell e g p = Some (r, g) \<and>
             delta_revealedCells (actionChanges (data r)) = [] \<and>
             delta_flaggedCells (actionChanges (data r)) = [] \<and>
             delta_unflaggedCells (actionChanges (data r)) = [] \<and>
             delta_explodedCells (actionChanges (data r)) = []"
proof -
  let ?f = "engine_field e"
  from we have wf: "wf_field ?f" and adj: "adjacency_ok ?f"
    and pl: "0 < mineCount ?f \<or> mines (params ?f) \<le> 0"
    by (simp_all add: wf_engine_def)
  from revealCell_sem[OF we pb, of g] obtain r st f1 f' where
    a: "revealCell e g p = Some (r, g)" "preReveal e g p = Some (st, f1, g)"
     "delta_explodedCells (actionChanges (data r))
       = (if st = Playing \<and> \<not> isFlagged (cellAt f1 p) then revealExploded f1 p else [])"
     "delta_flaggedCells (actionChanges (data r)) = []"
     "st \<noteq> Playing \<or> isFlagged (cellAt f1 p) \<or>
      (\<not> isMine (cellAt f1 p) \<and> isRevealed (cellAt f1 p) \<and>
       int (flagCount f1 p) \<noteq> adjacentMines (cellAt f1 p)) \<longrightarrow>
        f' = f1 \<and> delta_revealedCells (actionChanges (data r)) = [] \<and>
        delta_unflaggedCells (actionChanges (data r)) = [] \<and>
        handledCells (actionChanges (data r)) = []"
    by blast
  have "isFlagged (cellAt f1 p)"
  proof (cases "engine_status e = Idle")
    case False
    with a(2) fl show ?thesis by (auto simp: preReveal_def)
  next
    case True
    with a(2) have fc: "firstClick (cloneSelf ?f) g p = Some (st, f1, g)"
      by (simp add: preReveal_def)
    from firstClick_wf[OF wf adj pb pl, of g] fc
    have "\<forall>q. isInBoundary ?f q \<longrightarrow>
              isRevealed (cellAt f1 q) = isRevealed (cellAt ?f q) \<and>
              isFlagged (cellAt f1 q) = isFlagged (cellAt ?f q)"
      by auto
    with pb fl show ?thesis by simp
  qed
  then show ?thesis using a by auto
qed

text \<open>A restored game with the status \<open>Idle\<close>: the mine at column 0, a flag on the
  numbered cell at column 1.\<close>

definition engine12_flag :: GameEngine where
  "engine12_flag =
     \<lparr>engine_params = \<lparr>cols = 2, rows = 1, mines = 1\<rparr>,
      engine_field =
        \<lparr>params = \<lparr>cols = 2, rows = 1, mines = 1\<rparr>,
         grid = [[mkCell 0 0 True False False 0, mkCell 0 1 False False True 1]],
         isMined = True\<rparr>,
      engine_status = Idle, flagsRemaining = 1\<rparr>"

lemma engine12_flag_facts:
  "wf_engine engine12_flag"
  "isInBoundary (engine_field engine12_flag) \<lparr>col = 1, row = 0\<rparr>"
  "\<not> isMine (cellAt (engine_field engine12_flag) \<lparr>col = 1, row = 0\<rparr>)"
  "isFlagged (cellAt (engine_field engine12_flag) \<lparr>col = 1, row = 0\<rparr>)"
  "engine_status engine12_flag = Idle"
  by code_simp+

text \<open>
  Claim C6, as amended. In a well-formed engine, for a position inside the boundary:
  unless the status is \<open>Idle\<close>, the target is a mine and some cell is no mine (the case
  in which step 1 relocates the mine), revealing a flagged cell, chording with a number
  of flagged siblings that differs from the number of the cell, and revealing when the
  status is \<open>Won\<close> or \<open>Lost\<close> return a result (nothing is raised) whose four delta lists
  are empty and whose grid of cells is the grid of the snapshot before the action.
  Revealing a flagged cell returns a result with four empty delta lists in every status.
  \<open>toggleFlag\<close> on a revealed cell, on a cell without a flag when no flag remains, or when
  the status is not \<open>Playing\<close> returns a result with empty delta lists and the snapshot
  before the action.
\<close>

theorem illegal_actions_noop:
  assumes "wf_engine e" and "isInBoundary (engine_field e) p"
  shows "((engine_status e \<noteq> Idle \<or> \<not> isMine (cellAt (engine_field e) p) \<or>
           (\<forall>q. isInBoundary (engine_field e) q \<longrightarrow> isMine (cellAt (engine_field e) q))) \<and>
          (isFlagged (cellAt (engine_field e) p) \<or>
           (isRevealed (cellAt (engine_field e) p) \<and> \<not> isMine (cellAt (engine_field e) p) \<and>
            int (flagCount (engine_field e) p) \<noteq> adjacentMines (cellAt (engine_field e) p)) \<or>
           engine_status e = Won \<or> engine_status e = Lost) \<longrightarrow>
          (\<exists>r. revealCell e g p = Some (r, g) \<and>
             delta_revealedCells (actionChanges (data r)) = [] \<and>
             delta_flaggedCells (actionChanges (data r)) = [] \<and>
             delta_unflaggedCells (actionChanges (data r)) = [] \<and>
             delta_explodedCells (actionChanges (data r)) = [] \<and>
             field (actionSnapshot (data r)) = field (gameSnapshot e))) \<and>
         (isFlagged (cellAt (engine_field e) p) \<longrightarrow>
          (\<exists>r. revealCell e g p = Some (r, g) \<and>
             delta_revealedCells (actionChanges (data r)) = [] \<and>
             delta_flaggedCells (actionChanges (data r)) = [] \<and>
             delta_unflaggedCells (actionChanges (data r)) = [] \<and>
             delta_explodedCells (actionChanges (data r)) = [])) \<and>
         (engine_status e \<noteq> Playing \<or> isRevealed (cellAt (engine_field e) p) \<or>
          (\<not> isFlagged (cellAt (engine_field e) p) \<and> flagsRemaining e \<le> 0) \<longrightarrow>
          (\<exists>r. toggleFlag e p = Some r \<and>
             delta_revealedCells (actionChanges (data r)) = [] \<and>
             delta_flaggedCells (actionChanges (data r)) = [] \<and>
             delta_unflaggedCells (actionChanges (data r)) = [] \<and>
             delta_explodedCells (actionChanges (data r)) = [] \<and>
             actionSnapshot (data r) = gameSnapshot e))"
proof (rule conjI[OF _ conjI])
  let ?f = "engine_field e"
  show "(engine_status e \<noteq> Idle \<or> \<not> isMine (cellAt ?f p) \<or>
           (\<forall>q. isInBoundary ?f q \<longrightarrow> isMine (cellAt ?f q))) \<and>
          (isFlagged (cellAt ?f p) \<or>
           (isRevealed (cellAt ?f p) \<and> \<not> isMine (cellAt ?f p) \<and>
            int (flagCount ?f p) \<noteq> adjacentMines (cellAt ?f p)) \<or>
           engine_status e = Won \<or> engine_status e = Lost) \<longrightarrow>
          (\<exists>r. revealCell e g p = Some (r, g) \<and>
             delta_revealedCells (actionChanges (data r)) = [] \<and>
             delta_flaggedCells (actionChanges (data r)) = [] \<and>
             delta_unflaggedCells (actionChanges (data r)) = [] \<and>
             delta_explodedCells (actionChanges (data r)) = [] \<and>
             field (actionSnapshot (data r)) = field (gameSnapshot e))"
  proof (rule impI)
    assume a: "(engine_status e \<noteq> Idle \<or> \<not> isMine (cellAt ?f p) \<or>
           (\<forall>q. isInBoundary ?f q \<longrightarrow> isMine (cellAt ?f q))) \<and>
          (isFlagged (cellAt ?f p) \<or>
           (isRevealed (cellAt ?f p) \<and> \<not> isMine (cellAt ?f p) \<and>
            int (flagCount ?f p) \<noteq> adjacentMines (cellAt ?f p)) \<or>
           engine_status e = Won \<or> engine_status e = Lost)"
    then have nr: "engine_status e \<noteq> Idle \<or> \<not> isMine (cellAt ?f p) \<or>
           (\<forall>q. isInBoundary ?f q \<longrightarrow> isMine (cellAt ?f q))" by (rule conjunct1)
    from revealCell_unrelocated[OF assms nr, of g] obtain r st f' where
      r: "revealCell e g p = Some (r, g)"
       "st = (if engine_status e \<noteq> Idle then engine_status e
              else if isMine (cellAt ?f p) then Lost else Playing)"
       "actionSnapshot (data r) = withStatus (getState f') (determineStatus e (getState f'))"
       "delta_explodedCells (actionChanges (data r))
         = (if st = Playing \<and> \<not> isFlagged (cellAt ?f p)
            then revealExploded ?f p else [])"
       "delta_flaggedCells (actionChanges (data r)) = []"
       "st \<noteq> Playing \<or> isFlagged (cellAt ?f p) \<or>
        (\<not> isMine (cellAt ?f p) \<and> isRevealed (cellAt ?f p) \<and>
         int (flagCount ?f p) \<noteq> adjacentMines (cellAt ?f p)) \<longrightarrow>
          grid f' = grid ?f \<and> delta_revealedCells (actionChanges (data r)) = [] \<and>
          delta_unflaggedCells (actionChanges (data r)) = [] \<and>
          handledCells (actionChanges (data r)) = []"
      by blast
    have nop: "st \<noteq> Playing \<or> isFlagged (cellAt ?f p) \<or>
        (\<not> isMine (cellAt ?f p) \<and> isRevealed (cellAt ?f p) \<and>
         int (flagCount ?f p) \<noteq> adjacentMines (cellAt ?f p))"
      using a r(2) by auto
    have ex: "delta_explodedCells (actionChanges (data r)) = []"
      using r(4) nop by (auto simp: revealExploded_def)
    show "\<exists>r. revealCell e g p = Some (r, g) \<and>
             delta_revealedCells (actionChanges (data r)) = [] \<and>
             delta_flaggedCells (actionChanges (data r)) = [] \<and>
             delta_unflaggedCells (actionChanges (data r)) = [] \<and>
             delta_explodedCells (actionChanges (data r)) = [] \<and>
             field (actionSnapshot (data r)) = field (gameSnapshot e)"
      apply (rule exI[of _ r])
      using r(1,3,5,6) nop ex by (simp add: gameSnapshot_def)
  qed
next
  show "isFlagged (cellAt (engine_field e) p) \<longrightarrow>
          (\<exists>r. revealCell e g p = Some (r, g) \<and>
             delta_revealedCells (actionChanges (data r)) = [] \<and>
             delta_flaggedCells (actionChanges (data r)) = [] \<and>
             delta_unflaggedCells (actionChanges (data r)) = [] \<and>
             delta_explodedCells (actionChanges (data r)) = [])"
    using revealCell_flagged_deltas[OF assms] by blast
next
  let ?f = "engine_field e"
  show "engine_status e \<noteq> Playing \<or> isRevealed (cellAt ?f p) \<or>
          (\<not> isFlagged (cellAt ?f p) \<and> flagsRemaining e \<le> 0) \<longrightarrow>
          (\<exists>r. toggleFlag e p = Some r \<and>
             delta_revealedCells (actionChanges (data r)) = [] \<and>
             delta_flaggedCells (actionChanges (data r)) = [] \<and>
             delta_unflaggedCells (actionChanges (data r)) = [] \<and>
             delta_explodedCells (actionChanges (data r)) = [] \<and>
             actionSnapshot (data r) = gameSnapshot e)"
  proof (rule impI)
    assume a: "engine_status e \<noteq> Playing \<or> isRevealed (cellAt ?f p) \<or>
          (\<not> isFlagged (cellAt ?f p) \<and> flagsRemaining e \<le> 0)"
    from toggleFlag_sem[OF assms] obtain r f' where
      r: "toggleFlag e p = Some r"
       "actionSnapshot (data r) = withStatus (getState f') (engine_status e)"
       "delta_explodedCells (actionChanges (data r)) = []"
       "delta_revealedCells (actionChanges (data r)) = []"
       "engine_status e \<noteq> Playing \<or> isRevealed (cellAt ?f p) \<or>
        (\<not> isFlagged (cellAt ?f p) \<and> flagsRemaining e \<le> 0) \<longrightarrow>
          f' = cloneSelf ?f \<and>
          delta_flaggedCells (actionChanges (data r)) = [] \<and>
          delta_unflaggedCells (actionChanges (data r)) = []"
      by blast
    have gs: "getState (cloneSelf ?f) = getState ?f" by (simp add: getState_def)
    show "\<exists>r. toggleFlag e p = Some r \<and>
             delta_revealedCells (actionChanges (data r)) = [] \<and>
             delta_flaggedCells (actionChanges (data r)) = [] \<and>
             delta_unflaggedCells (actionChanges (data r)) = [] \<and>
             delta_explodedCells (actionChanges (data r)) = [] \<and>
             actionSnapshot (data r) = gameSnapshot e"
      apply (rule exI[of _ r])
      using r a by (simp add: gameSnapshot_def gs)
  qed
qed

lemma engine33_playing_facts:
  "isInBoundary (engine_field engine33_playing) \<lparr>col = 0, row = 0\<rparr>"
  "isInBoundary (engine_field engine33_playing) \<lparr>col = 1, row = 1\<rparr>"
  "isInBoundary (engine_field engine33_playing) \<lparr>col = 2, row = 2\<rparr>"
  "isFlagged (cellAt (engine_field engine33_playing) \<lparr>col = 0, row = 0\<rparr>)"
  "isRevealed (cellAt (engine_field engine33_playing) \<lparr>col = 1, row = 1\<rparr>)"
  "\<not> isFlagged (cellAt (engine_field engine33_playing) \<lparr>col = 2, row = 2\<rparr>)"
  "engine_status engine33_playing = Playing" "flagsRemaining engine33_playing = 0"
  by code_simp+

theorem illegal_actions_noop_witness:
  "(\<exists>r. revealCell engine33_playing (\<lambda>n. 0) \<lparr>col = 0, row = 0\<rparr> = Some (r, \<lambda>n. 0) \<and>
        delta_revealedCells (actionChanges (data r)) = [] \<and>
        delta_explodedCells (actionChanges (data r)) = [] \<and>
        field (actionSnapshot (data r)) = field (gameSnapshot engine33_playing)) \<and>
   (\<exists>r. revealCell engine12_flag (\<lambda>n. 0) \<lparr>col = 1, row = 0\<rparr> = Some (r, \<lambda>n. 0) \<and>
        delta_revealedCells (actionChanges (data r)) = [] \<and>
        delta_explodedCells (actionChanges (data r)) = [] \<and>
        field (actionSnapshot (data r)) = field (gameSnapshot engine12_flag)) \<and>
   (\<exists>r. toggleFlag engine33_playing \<lparr>col = 1, row = 1\<rparr> = Some r \<and>
        delta_flaggedCells (actionChanges (data r)) = [] \<and>
        actionSnapshot (data r) = gameSnapshot engine33_playing) \<and>
   (\<exists>r. toggleFlag engine33_playing \<lparr>col = 2, row = 2\<rparr> = Some r \<and>
        delta_flaggedCells (actionChanges (data r)) = [] \<and>
        actionSnapshot (data r) = gameSnapshot engine33_playing)"
proof (intro conjI)
  show "\<exists>r. revealCell engine33_playing (\<lambda>n. 0) \<lparr>col = 0, row = 0\<rparr> = Some (r, \<lambda>n. 0) \<and>
        delta_revealedCells (actionChanges (data r)) = [] \<and>
        delta_explodedCells (actionChanges (data r)) = [] \<and>
        field (actionSnapshot (data r)) = field (gameSnapshot engine33_playing)"
    using illegal_actions_noop[OF engine33_playing_wf engine33_playing_facts(1), of "\<lambda>n. 0",
        THEN conjunct1]
      engine33_playing_facts(4,7)
    by auto
  show "\<exists>r. revealCell engine12_flag (\<lambda>n. 0) \<lparr>col = 1, row = 0\<rparr> = Some (r, \<lambda>n. 0) \<and>
        delta_revealedCells (actionChanges (data r)) = [] \<and>
        delta_explodedCells (actionChanges (data r)) = [] \<and>
        field (actionSnapshot (data r)) = field (gameSnapshot engine12_flag)"
    using illegal_actions_noop[OF engine12_flag_facts(1,2), of "\<lambda>n. 0", THEN conjunct1]
      engine12_flag_facts(3,4)
    by auto
  show "\<exists>r. toggleFlag engine33_playing \<lparr>col = 1, row = 1\<rparr> = Some r \<and>
        delta_flaggedCells (actionChanges (data r)) = [] \<and>
        actionSnapshot (data r) = gameSnapshot engine33_playing"
    using illegal_actions_noop[OF engine33_playing_wf engine33_playing_facts(2), of "\<lambda>n. 0",
        THEN conjunct2, THEN conjunct2]
      engine33_playing_facts(5)
    by auto
  show "\<exists>r. toggleFlag engine33_playing \<lparr>col = 2, row = 2\<rparr> = Some r \<and>
        delta_flaggedCells (actionChanges (data r)) = [] \<and>
        actionSnapshot (data r) = gameSnapshot engine33_playing"
    using illegal_actions_noop[OF engine33_playing_wf engine33_playing_facts(3), of "\<lambda>n. 0",
        THEN conjunct2, THEN conjunct2]
      engine33_playing_facts(6,8)
    by auto
qed

text \<open>
  The claim as stated fails in the status \<open>Idle\<close> when the target is a mine: on the
  restored engine the first reveal, of the flagged mine, relocates the mine before it
  finds the flag, so the cells of the returned snapshot differ from the cells before the
  action.
\<close>

theorem illegal_actions_noop_counterexample:
  "map_option fst (new_GameEngine cfg12 (\<lambda>n. 0)) = Some engine12 \<and>
   isFlagged (cellAt (engine_field engine12) \<lparr>col = 0, row = 0\<rparr>) \<and>
   map_option (\<lambda>(r, g'). (delta_revealedCells (actionChanges (data r)),
                           delta_flaggedCells (actionChanges (data r)),
                           delta_unflaggedCells (actionChanges (data r)),
                           delta_explodedCells (actionChanges (data r)),
                           field (actionSnapshot (data r)) = field (gameSnapshot engine12),
                           field (actionSnapshot (data r))))
     (revealCell engine12 (\<lambda>n. 0) \<lparr>col = 0, row = 0\<rparr>)
     = Some ([], [], [], [], False,
             [[mkCell 0 0 False False True 1, mkCell 0 1 True False False 0]])"
  by code_simp

lemma revealCell_target:
  assumes "revealCell e g pos = Some (r, g')"
  shows "target (actionChanges (data r)) = getCellObj (engine_field (applyAction r e)) pos"
  using assms unfolding revealCell_def
  by (auto split: option.splits prod.splits if_splits)

lemma revealCell_gameSnapshot:
  assumes "revealCell e g pos = Some (r, g')"
  shows "actionSnapshot (data r) = gameSnapshot (applyAction r e')"
  using revealCell_snapshot[OF assms] by (auto simp: gameSnapshot_def)

lemma length_all_positions:
  "length (all_positions f) = nat (rows (params f)) * nat (cols (params f))"
  by (simp add: all_positions_product)

lemma exists_unmined:
  assumes wf: "wf_field f" and lt: "mineCount f < nat (rows (params f)) * nat (cols (params f))"
  shows "\<exists>q. isInBoundary f q \<and> \<not> isMine (cellAt f q)"
proof (rule ccontr)
  assume "\<not> (\<exists>q. isInBoundary f q \<and> \<not> isMine (cellAt f q))"
  then have "filter (\<lambda>p. isMine (cellAt f p)) (all_positions f) = all_positions f"
    by (auto simp: filter_id_conv set_all_positions)
  then have "mineCount f = length (all_positions f)"
    by (simp add: mineCount_positions[OF wf])
  with lt show False by (simp add: length_all_positions)
qed

lemma explodedCells_empty:
  assumes wf: "wf_field f"
    and ne: "\<And>q. isInBoundary f q \<Longrightarrow> \<not> (isMine (cellAt f q) \<and> isRevealed (cellAt f q))"
  shows "explodedCells (getState f) = []"
  using ne
  by (auto simp: getState_def Let_def getData_def [abs_def] concat_grid[OF wf] filter_empty_conv
      set_all_positions isExploded_def simp del: set_concat)

lemma minedCells_count: "length (minedCells (getState f)) = mineCount f"
  by (simp add: getState_def Let_def getData_def [abs_def] mineCount_def)

text \<open>
  Claim C1. For an engine built without saved data with \<open>rows * cols > mines\<close> and a
  position inside the boundary, the first \<open>revealCell\<close> returns a result whose status is
  not \<open>Lost\<close>: the snapshot has no exploded cell, the target in it is revealed and is no
  mine, and the number of mines is the number before the action. When the target was a
  mine, the mines of the snapshot are the mines before the action with the target
  replaced by a cell that was no mine. The snapshot is what \<open>gameSnapshot\<close> gives once the
  result is applied.
\<close>

theorem first_move_safety:
  assumes ne: "new_GameEngine cfg g = Some (e, g')" and nd: "config_data cfg = None"
    and gt: "rows (config_params cfg) * cols (config_params cfg) > mines (config_params cfg)"
    and pb: "0 \<le> row p \<and> row p < rows (config_params cfg) \<and>
             0 \<le> col p \<and> col p < cols (config_params cfg)"
  shows "\<exists>r. revealCell e g2 p = Some (r, g2) \<and>
           status (actionSnapshot (data r)) \<noteq> Lost \<and>
           explodedCells (actionSnapshot (data r)) = [] \<and>
           actionSnapshot (data r) = gameSnapshot (applyAction r e) \<and>
           (\<exists>c. target (actionChanges (data r)) = Some c \<and> \<not> isMine c \<and> isRevealed c) \<and>
           length (minedCells (actionSnapshot (data r))) = mineCount (engine_field e) \<and>
           (isMine (cellAt (engine_field e) p) \<longrightarrow>
              (\<exists>b. isInBoundary (engine_field e) b \<and> \<not> isMine (cellAt (engine_field e) b) \<and>
                 (\<forall>q. isInBoundary (engine_field e) q \<longrightarrow>
                    isMine (cellAt (engine_field (applyAction r e)) q)
                      = (q = b \<or> (q \<noteq> p \<and> isMine (cellAt (engine_field e) q))))))"
proof -
  let ?f = "engine_field e"
  from new_GameEngine_fresh[OF ne nd]
  have we: "wf_engine e" and ep: "engine_params e = config_params cfg"
    and idle: "engine_status e = Idle"
    and mc: "int (mineCount ?f) = max 0 (mines (config_params cfg))"
    and un: "\<forall>q. isInBoundary ?f q \<longrightarrow> \<not> isRevealed (cellAt ?f q) \<and> \<not> isFlagged (cellAt ?f q)"
    by simp_all
  from we have wf: "wf_field ?f" and ps: "params ?f = engine_params e"
    and adj: "adjacency_ok ?f"
    and pl: "0 < mineCount ?f \<or> mines (params ?f) \<le> 0"
    by (simp_all add: wf_engine_def)
  have pbf: "isInBoundary ?f p" using pb by (simp add: isInBoundary_def ps ep)
  have pos: "0 < rows (config_params cfg)" "0 < cols (config_params cfg)" using pb by auto
  have "int (nat (rows (params ?f)) * nat (cols (params ?f)))
          = rows (config_params cfg) * cols (config_params cfg)"
    using pos by (simp add: ps ep)
  then have "mineCount ?f < nat (rows (params ?f)) * nat (cols (params ?f))"
    using mc gt pos by (smt (verit) mult_pos_pos of_nat_less_iff)
  from exists_unmined[OF wf this] have exu: "\<exists>q. isInBoundary ?f q \<and> \<not> isMine (cellAt ?f q)" .
  from firstClick_wf[OF wf adj pbf pl, of g2] obtain st f1 where
    fc: "firstClick (cloneSelf ?f) g2 p = Some (st, f1, g2)"
    and f1: "wf_field f1" "params f1 = params ?f" "adjacency_ok f1" "mineCount f1 = mineCount ?f"
      "\<forall>q. isInBoundary ?f q \<longrightarrow>
              isRevealed (cellAt f1 q) = isRevealed (cellAt ?f q) \<and>
              isFlagged (cellAt f1 q) = isFlagged (cellAt ?f q)"
      "\<not> isMine (cellAt ?f p) \<longrightarrow>
              st = Playing \<and> (\<forall>q. isInBoundary ?f q \<longrightarrow> cellAt f1 q = cellAt ?f q)"
      "isMine (cellAt ?f p) \<and> (\<exists>q. isInBoundary ?f q \<and> \<not> isMine (cellAt ?f q)) \<longrightarrow>
              st = Playing \<and>
              (\<exists>b. isInBoundary ?f b \<and> \<not> isMine (cellAt ?f b) \<and>
                 (\<forall>q. isInBoundary ?f q \<longrightarrow>
                    isMine (cellAt f1 q) = (q = b \<or> (q \<noteq> p \<and> isMine (cellAt ?f q)))))"
    by blast
  have st: "st = Playing" using f1(6,7) exu by blast
  have b1: "isInBoundary f1 = isInBoundary ?f" by (rule isInBoundary_params[OF f1(2)])
  have nm1: "\<not> isMine (cellAt f1 p)"
  proof (cases "isMine (cellAt ?f p)")
    case False
    then show ?thesis using f1(6) pbf by simp
  next
    case True
    with f1(7) exu obtain b where "\<not> isMine (cellAt ?f b)"
      "\<forall>q. isInBoundary ?f q \<longrightarrow>
          isMine (cellAt f1 q) = (q = b \<or> (q \<noteq> p \<and> isMine (cellAt ?f q)))" by blast
    then show ?thesis using True pbf by auto
  qed
  have ut1: "\<not> isRevealed (cellAt f1 p)" "\<not> isFlagged (cellAt f1 p)"
    using f1(5) un pbf by simp_all
  have rs: "revealSet f1 p = areaSet f1 p" using nm1 ut1 by (simp add: revealSet_def)
  from revealCell_sem[OF we pbf, of g2] obtain r st' f1' f' where
    r: "revealCell e g2 p = Some (r, g2)" "preReveal e g2 p = Some (st', f1', g2)"
     "wf_field f'" "params f' = engine_params e"
     "\<forall>q. isInBoundary f1' q \<longrightarrow>
        cellAt f' q = (if st' = Playing \<and> \<not> isFlagged (cellAt f1' p) \<and> q \<in> revealSet f1' p
                       then opened (cellAt f1' q) else cellAt f1' q)"
     "actionSnapshot (data r) = withStatus (getState f') (determineStatus e (getState f'))"
     "applyAction r = (\<lambda>this. this\<lparr>engine_status := determineStatus e (getState f'),
                                   engine_field := f',
                                   flagsRemaining := getFlagsRemaining this (getState f')\<rparr>)"
    by blast
  from r(2) fc idle have e1: "st' = st" "f1' = f1" by (simp_all add: preReveal_def)
  have c': "\<And>q. isInBoundary ?f q \<Longrightarrow>
              cellAt f' q = (if q \<in> areaSet f1 p then opened (cellAt f1 q) else cellAt f1 q)"
    using r(5) st ut1 rs by (simp add: e1 b1)
  have b': "isInBoundary f' = isInBoundary ?f"
    by (rule isInBoundary_params) (simp add: r(4) ps)
  have pb1: "isInBoundary f1 p" using pbf by (simp add: b1)
  have noex: "explodedCells (getState f') = []"
  proof (rule explodedCells_empty[OF r(3)])
    fix q assume "isInBoundary f' q"
    then have q: "isInBoundary ?f q" by (simp add: b')
    show "\<not> (isMine (cellAt f' q) \<and> isRevealed (cellAt f' q))"
    proof (cases "q \<in> areaSet f1 p")
      case True
      then have "\<not> isMine (cellAt f1 q)" by (rule areaSet_no_mine[OF f1(1) f1(3) pb1 nm1])
      then show ?thesis using True by (simp add: c'[OF q])
    next
      case False
      then show ?thesis using f1(5) un q by (simp add: c'[OF q])
    qed
  qed
  have sm: "same_mines f1 f'" using r(4) ps f1(2) c' by (simp add: same_mines_def b1)
  have cnt: "mineCount f' = mineCount ?f"
    using mineCount_same_mines[OF f1(1) r(3) sm] f1(4) by simp
  have tg: "target (actionChanges (data r)) = Some (opened (cellAt f1 p))"
    using revealCell_target[OF r(1)] getCellObj_boundary[OF r(3), of p] pbf
      c'[OF pbf] areaSet_self[of p f1]
    by (simp add: r(7) b')
  have rel: "isMine (cellAt ?f p) \<longrightarrow>
              (\<exists>b. isInBoundary ?f b \<and> \<not> isMine (cellAt ?f b) \<and>
                 (\<forall>q. isInBoundary ?f q \<longrightarrow>
                    isMine (cellAt (engine_field (applyAction r e)) q)
                      = (q = b \<or> (q \<noteq> p \<and> isMine (cellAt ?f q)))))"
  proof
    assume "isMine (cellAt ?f p)"
    with f1(7) exu obtain b where b: "isInBoundary ?f b" "\<not> isMine (cellAt ?f b)"
      "\<forall>q. isInBoundary ?f q \<longrightarrow>
          isMine (cellAt f1 q) = (q = b \<or> (q \<noteq> p \<and> isMine (cellAt ?f q)))" by blast
    have "\<forall>q. isInBoundary ?f q \<longrightarrow>
            isMine (cellAt (engine_field (applyAction r e)) q)
              = (q = b \<or> (q \<noteq> p \<and> isMine (cellAt ?f q)))"
      using b(3) c' by (simp add: r(7))
    with b(1,2) show "\<exists>b. isInBoundary ?f b \<and> \<not> isMine (cellAt ?f b) \<and>
                 (\<forall>q. isInBoundary ?f q \<longrightarrow>
                    isMine (cellAt (engine_field (applyAction r e)) q)
                      = (q = b \<or> (q \<noteq> p \<and> isMine (cellAt ?f q))))" by blast
  qed
  have s1: "status (actionSnapshot (data r)) \<noteq> Lost"
    by (simp add: r(6) determineStatus_def noex)
  have s2: "explodedCells (actionSnapshot (data r)) = []"
    by (simp add: r(6) withStatus_def noex)
  have s3: "length (minedCells (actionSnapshot (data r))) = mineCount ?f"
    using minedCells_count[of f'] by (simp add: r(6) withStatus_def cnt)
  have s4: "actionSnapshot (data r) = gameSnapshot (applyAction r e)"
    by (rule revealCell_gameSnapshot[OF r(1)])
  have s5: "\<exists>c. target (actionChanges (data r)) = Some c \<and> \<not> isMine c \<and> isRevealed c"
    using tg nm1 by simp
  from r(1) s1 s2 s3 s4 s5 rel show ?thesis by blast
qed

theorem first_move_safety_witness:
  "\<exists>r. revealCell engine33 (\<lambda>n. 0) \<lparr>col = 0, row = 0\<rparr> = Some (r, \<lambda>n. 0) \<and>
        status (actionSnapshot (data r)) \<noteq> Lost \<and>
        isMine (cellAt (engine_field engine33) \<lparr>col = 0, row = 0\<rparr>) \<and>
        (\<exists>c. target (actionChanges (data r)) = Some c \<and> \<not> isMine c \<and> isRevealed c)"
proof -
  obtain g' where ne: "new_GameEngine cfg33 (\<lambda>n. 0) = Some (engine33, g')"
    using new_GameEngine_cfg33 by fastforce
  have h: "config_data cfg33 = None"
    "rows (config_params cfg33) * cols (config_params cfg33) > mines (config_params cfg33)"
    "0 \<le> row \<lparr>col = 0, row = 0\<rparr> \<and> row \<lparr>col = 0, row = 0\<rparr> < rows (config_params cfg33) \<and>
     0 \<le> col \<lparr>col = 0, row = 0\<rparr> \<and> col \<lparr>col = 0, row = 0\<rparr> < cols (config_params cfg33)"
    by (simp_all add: cfg33_def)
  have m: "isMine (cellAt (engine_field engine33) \<lparr>col = 0, row = 0\<rparr>)" by code_simp
  from first_move_safety[OF ne h, of "\<lambda>n. 0"] m show ?thesis by blast
qed

text \<open>
  Claim C3. In a well-formed engine with the status \<open>Playing\<close>, let the target be inside
  the boundary, revealed, not flagged and no mine; its siblings are \<open>nbrs\<close> and
  \<open>flagCount\<close> is the number of its flagged siblings. When \<open>flagCount\<close> is the
  \<open>adjacentMines\<close> of the target, \<open>revealCell\<close> returns a result in whose field every
  sibling that was neither flagged nor revealed has been treated: a mined one is
  revealed and its data is in the exploded list, and for one that is no mine every cell
  of the area that \<open>getAreaToReveal\<close> gives from it is revealed and not flagged. The
  cells of the field are those before the action with exactly the cells of these areas
  opened (revealed, flag cleared). When \<open>flagCount\<close> differs, the grid is unchanged and
  the delta lists are empty.
\<close>

theorem chording_correctness:
  assumes we: "wf_engine e" and pb: "isInBoundary (engine_field e) p"
    and pl: "engine_status e = Playing"
    and tr: "isRevealed (cellAt (engine_field e) p)"
    and tf: "\<not> isFlagged (cellAt (engine_field e) p)"
    and tm: "\<not> isMine (cellAt (engine_field e) p)"
  shows "getSiblings (engine_field e) p = Some (nbrs (engine_field e) p) \<and>
     (int (flagCount (engine_field e) p) = adjacentMines (cellAt (engine_field e) p) \<longrightarrow>
        (\<exists>r. revealCell e g p = Some (r, g) \<and>
           (\<forall>q. isInBoundary (engine_field e) q \<longrightarrow>
              cellAt (engine_field (applyAction r e)) q
                = (if q \<in> chordSet (engine_field e) (nbrs (engine_field e) p)
                   then opened (cellAt (engine_field e) q) else cellAt (engine_field e) q)) \<and>
           (\<forall>n \<in> set (nbrs (engine_field e) p).
              \<not> isFlagged (cellAt (engine_field e) n) \<and> \<not> isRevealed (cellAt (engine_field e) n) \<longrightarrow>
                (isMine (cellAt (engine_field e) n) \<longrightarrow>
                   isRevealed (cellAt (engine_field (applyAction r e)) n) \<and>
                   cellAt (engine_field (applyAction r e)) n
                     \<in> set (delta_explodedCells (actionChanges (data r)))) \<and>
                (\<not> isMine (cellAt (engine_field e) n) \<longrightarrow>
                   (\<exists>area. getAreaToReveal (engine_field e) n = Some area \<and> n \<in> set area \<and>
                      (\<forall>q \<in> set area.
                         isRevealed (cellAt (engine_field (applyAction r e)) q) \<and>
                         \<not> isFlagged (cellAt (engine_field (applyAction r e)) q))))))) \<and>
     (int (flagCount (engine_field e) p) \<noteq> adjacentMines (cellAt (engine_field e) p) \<longrightarrow>
        (\<exists>r. revealCell e g p = Some (r, g) \<and>
           grid (engine_field (applyAction r e)) = grid (engine_field e) \<and>
           delta_revealedCells (actionChanges (data r)) = [] \<and>
           delta_flaggedCells (actionChanges (data r)) = [] \<and>
           delta_unflaggedCells (actionChanges (data r)) = [] \<and>
           delta_explodedCells (actionChanges (data r)) = []))"
proof -
  let ?f = "engine_field e"
  from we have wf: "wf_field ?f" by (simp add: wf_engine_def)
  have ni: "engine_status e \<noteq> Idle" using pl by simp
  from revealCell_started[OF we pb ni, of g] obtain r f' where
    r: "revealCell e g p = Some (r, g)"
     "\<forall>q. isInBoundary ?f q \<longrightarrow>
        cellAt f' q = (if engine_status e = Playing \<and> \<not> isFlagged (cellAt ?f p) \<and>
                          q \<in> revealSet ?f p
                       then opened (cellAt ?f q) else cellAt ?f q)"
     "applyAction r = (\<lambda>this. this\<lparr>engine_status := determineStatus e (getState f'),
                                   engine_field := f',
                                   flagsRemaining := getFlagsRemaining this (getState f')\<rparr>)"
     "delta_explodedCells (actionChanges (data r))
       = (if engine_status e = Playing \<and> \<not> isFlagged (cellAt ?f p)
          then revealExploded ?f p else [])"
     "delta_flaggedCells (actionChanges (data r)) = []"
     "engine_status e \<noteq> Playing \<or> isFlagged (cellAt ?f p) \<or>
      (\<not> isMine (cellAt ?f p) \<and> isRevealed (cellAt ?f p) \<and>
       int (flagCount ?f p) \<noteq> adjacentMines (cellAt ?f p)) \<longrightarrow>
        grid f' = grid ?f \<and> delta_revealedCells (actionChanges (data r)) = [] \<and>
        delta_unflaggedCells (actionChanges (data r)) = [] \<and>
        handledCells (actionChanges (data r)) = []"
    by blast
  have fa: "engine_field (applyAction r e) = f'" by (simp add: r(3))
  have gs: "getSiblings ?f p = Some (nbrs ?f p)" by (rule getSiblings_wf[OF wf])
  have match: "int (flagCount ?f p) = adjacentMines (cellAt ?f p) \<longrightarrow>
        (\<exists>r. revealCell e g p = Some (r, g) \<and>
           (\<forall>q. isInBoundary ?f q \<longrightarrow>
              cellAt (engine_field (applyAction r e)) q
                = (if q \<in> chordSet ?f (nbrs ?f p)
                   then opened (cellAt ?f q) else cellAt ?f q)) \<and>
           (\<forall>n \<in> set (nbrs ?f p).
              \<not> isFlagged (cellAt ?f n) \<and> \<not> isRevealed (cellAt ?f n) \<longrightarrow>
                (isMine (cellAt ?f n) \<longrightarrow>
                   isRevealed (cellAt (engine_field (applyAction r e)) n) \<and>
                   cellAt (engine_field (applyAction r e)) n
                     \<in> set (delta_explodedCells (actionChanges (data r)))) \<and>
                (\<not> isMine (cellAt ?f n) \<longrightarrow>
                   (\<exists>area. getAreaToReveal ?f n = Some area \<and> n \<in> set area \<and>
                      (\<forall>q \<in> set area.
                         isRevealed (cellAt (engine_field (applyAction r e)) q) \<and>
                         \<not> isFlagged (cellAt (engine_field (applyAction r e)) q))))))"
  proof
    assume eq: "int (flagCount ?f p) = adjacentMines (cellAt ?f p)"
    have rs: "revealSet ?f p = chordSet ?f (nbrs ?f p)"
      using tr tm eq by (simp add: revealSet_def)
    have c: "\<forall>q. isInBoundary ?f q \<longrightarrow>
              cellAt f' q = (if q \<in> chordSet ?f (nbrs ?f p)
                             then opened (cellAt ?f q) else cellAt ?f q)"
      using r(2) pl tf rs by simp
    have ex: "delta_explodedCells (actionChanges (data r))
       = map (\<lambda>n. opened (cellAt ?f n))
           (filter (\<lambda>n. isUntouched (cellAt ?f n) \<and> isMine (cellAt ?f n)) (nbrs ?f p))"
      using r(4) pl tf tr tm eq by (simp add: revealExploded_def)
    have per: "\<forall>n \<in> set (nbrs ?f p).
              \<not> isFlagged (cellAt ?f n) \<and> \<not> isRevealed (cellAt ?f n) \<longrightarrow>
                (isMine (cellAt ?f n) \<longrightarrow>
                   isRevealed (cellAt f' n) \<and>
                   cellAt f' n \<in> set (delta_explodedCells (actionChanges (data r)))) \<and>
                (\<not> isMine (cellAt ?f n) \<longrightarrow>
                   (\<exists>area. getAreaToReveal ?f n = Some area \<and> n \<in> set area \<and>
                      (\<forall>q \<in> set area. isRevealed (cellAt f' q) \<and> \<not> isFlagged (cellAt f' q))))"
    proof (intro ballI impI conjI)
      fix n assume n: "n \<in> set (nbrs ?f p)"
        and u: "\<not> isFlagged (cellAt ?f n) \<and> \<not> isRevealed (cellAt ?f n)"
      have nb: "isInBoundary ?f n" using n by (rule nbrs_boundary)
      have ut: "isUntouched (cellAt ?f n)" using u by (simp add: isUntouched_def)
      have sub: "areaSet ?f n \<subseteq> chordSet ?f (nbrs ?f p)"
        using n ut by (auto simp: chordSet_def)
      have nc: "cellAt f' n = opened (cellAt ?f n)"
        using c nb sub areaSet_self[of n ?f] by auto
      {
        assume m: "isMine (cellAt ?f n)"
        show "isRevealed (cellAt f' n)" by (simp add: nc)
        show "cellAt f' n \<in> set (delta_explodedCells (actionChanges (data r)))"
          using n ut m by (simp add: ex nc)
      }
      {
        assume "\<not> isMine (cellAt ?f n)"
        from getAreaToReveal_areaSet[OF wf nb] obtain area where
          a: "getAreaToReveal ?f n = Some area" "set area = areaSet ?f n" by blast
        have "\<forall>q \<in> set area. isRevealed (cellAt f' q) \<and> \<not> isFlagged (cellAt f' q)"
        proof
          fix q assume "q \<in> set area"
          then have q: "q \<in> areaSet ?f n" by (simp add: a(2))
          then have "isInBoundary ?f q" by (rule areaSet_boundary[OF nb])
          then have "cellAt f' q = opened (cellAt ?f q)" using c q sub by auto
          then show "isRevealed (cellAt f' q) \<and> \<not> isFlagged (cellAt f' q)" by simp
        qed
        with a areaSet_self[of n ?f]
        show "\<exists>area. getAreaToReveal ?f n = Some area \<and> n \<in> set area \<and>
                (\<forall>q \<in> set area. isRevealed (cellAt f' q) \<and> \<not> isFlagged (cellAt f' q))"
          by auto
      }
    qed
    show "\<exists>r. revealCell e g p = Some (r, g) \<and>
           (\<forall>q. isInBoundary ?f q \<longrightarrow>
              cellAt (engine_field (applyAction r e)) q
                = (if q \<in> chordSet ?f (nbrs ?f p)
                   then opened (cellAt ?f q) else cellAt ?f q)) \<and>
           (\<forall>n \<in> set (nbrs ?f p).
              \<not> isFlagged (cellAt ?f n) \<and> \<not> isRevealed (cellAt ?f n) \<longrightarrow>
                (isMine (cellAt ?f n) \<longrightarrow>
                   isRevealed (cellAt (engine_field (applyAction r e)) n) \<and>
                   cellAt (engine_field (applyAction r e)) n
                     \<in> set (delta_explodedCells (actionChanges (data r)))) \<and>
                (\<not> isMine (cellAt ?f n) \<longrightarrow>
                   (\<exists>area. getAreaToReveal ?f n = Some area \<and> n \<in> set area \<and>
                      (\<forall>q \<in> set area.
                         isRevealed (cellAt (engine_field (applyAction r e)) q) \<and>
                         \<not> isFlagged (cellAt (engine_field (applyAction r e)) q)))))"
      apply (rule exI[of _ r])
      unfolding fa using r(1) c per by blast
  qed
  have mismatch: "int (flagCount ?f p) \<noteq> adjacentMines (cellAt ?f p) \<longrightarrow>
        (\<exists>r. revealCell e g p = Some (r, g) \<and>
           grid (engine_field (applyAction r e)) = grid ?f \<and>
           delta_revealedCells (actionChanges (data r)) = [] \<and>
           delta_flaggedCells (actionChanges (data r)) = [] \<and>
           delta_unflaggedCells (actionChanges (data r)) = [] \<and>
           delta_explodedCells (actionChanges (data r)) = [])"
  proof
    assume ne: "int (flagCount ?f p) \<noteq> adjacentMines (cellAt ?f p)"
    have "delta_explodedCells (actionChanges (data r)) = []"
      using r(4) tm tr ne by (simp add: revealExploded_def)
    then show "\<exists>r. revealCell e g p = Some (r, g) \<and>
           grid (engine_field (applyAction r e)) = grid ?f \<and>
           delta_revealedCells (actionChanges (data r)) = [] \<and>
           delta_flaggedCells (actionChanges (data r)) = [] \<and>
           delta_unflaggedCells (actionChanges (data r)) = [] \<and>
           delta_explodedCells (actionChanges (data r)) = []"
      apply -
      apply (rule exI[of _ r])
      unfolding fa using r(1,5,6) tm tr ne by simp
  qed
  from gs match mismatch show ?thesis by blast
qed

lemma engine33_playing_chord:
  "\<lparr>col = 2, row = 2\<rparr> \<in> set (nbrs (engine_field engine33_playing) \<lparr>col = 1, row = 1\<rparr>)"
  "\<not> isFlagged (cellAt (engine_field engine33_playing) \<lparr>col = 1, row = 1\<rparr>)"
  "\<not> isMine (cellAt (engine_field engine33_playing) \<lparr>col = 1, row = 1\<rparr>)"
  "int (flagCount (engine_field engine33_playing) \<lparr>col = 1, row = 1\<rparr>)
     = adjacentMines (cellAt (engine_field engine33_playing) \<lparr>col = 1, row = 1\<rparr>)"
  "\<not> isFlagged (cellAt (engine_field engine33_playing) \<lparr>col = 2, row = 2\<rparr>)"
  "\<not> isRevealed (cellAt (engine_field engine33_playing) \<lparr>col = 2, row = 2\<rparr>)"
  "\<not> isMine (cellAt (engine_field engine33_playing) \<lparr>col = 2, row = 2\<rparr>)"
  by code_simp+

theorem chording_correctness_witness:
  "\<exists>r. revealCell engine33_playing (\<lambda>n. 0) \<lparr>col = 1, row = 1\<rparr> = Some (r, \<lambda>n. 0) \<and>
        isRevealed (cellAt (engine_field (applyAction r engine33_playing)) \<lparr>col = 2, row = 2\<rparr>) \<and>
        \<not> isFlagged (cellAt (engine_field (applyAction r engine33_playing)) \<lparr>col = 2, row = 2\<rparr>)"
  using chording_correctness[OF engine33_playing_wf engine33_playing_facts(2)
      engine33_playing_facts(7) engine33_playing_facts(5) engine33_playing_chord(2,3),
      of "\<lambda>n. 0"]
    engine33_playing_chord(1,4-)
  by blast

section \<open>The solver (field-solver.ts)\<close>

text \<open>
  \<^verbatim>\<open>MineProbability\<close> has the fields \<^verbatim>\<open>value\<close> and \<^verbatim>\<open>position\<close>, here \<open>prob_value\<close> and
  \<open>prob_position\<close>; the values that \<open>solve\<close> stores are the numbers 0 and 1. The map
  \<^verbatim>\<open>probabilities\<close> from keys to \<^verbatim>\<open>MineProbability\<close> keeps the order of insertion, which
  \<^verbatim>\<open>Array.from(probabilities.values())\<close> returns: it is a list of pairs, keyed by the
  position (\<^verbatim>\<open>createKey\<close> is one-to-one on integer positions). An entry is only ever
  added for a key that the map does not have.
\<close>

record MineProbability =
  prob_value :: rat
  prob_position :: Position

type_synonym probabilities = "(Position \<times> MineProbability) list"


text \<open>
  The inner loop of both rules: every closed sibling whose key has no entry gets the
  value \<open>v\<close>, and the flag \<^verbatim>\<open>updated\<close> is set. The key of a sibling is the position
  stored in the cell.
\<close>

definition setCertain_step ::
  "SquareField \<Rightarrow> rat \<Rightarrow> Position \<Rightarrow> probabilities \<times> bool \<Rightarrow> probabilities \<times> bool" where
  "setCertain_step f v sib s =
     (case s of (probs, updated) \<Rightarrow>
        let key = position (cellAt f sib)
        in if map_of probs key \<noteq> None then (probs, updated)
           else (probs @ [(key, \<lparr>prob_value = v, prob_position = key\<rparr>)], True))"

definition setCertain ::
  "SquareField \<Rightarrow> rat \<Rightarrow> Position list \<Rightarrow> probabilities \<times> bool \<Rightarrow> probabilities \<times> bool" where
  "setCertain f v closedSibs s = fold (setCertain_step f v) closedSibs s"

text \<open>One round of the loop over the revealed cells in \<^verbatim>\<open>inferCertainMines\<close>.\<close>

definition certainMines_step ::
  "SquareField \<Rightarrow> CellData \<Rightarrow> probabilities \<times> bool \<Rightarrow> (probabilities \<times> bool) option" where
  "certainMines_step f cell s =
     (if isEmpty cell \<or> isMine cell then Some s
      else case getSiblings f (position cell) of
             None \<Rightarrow> None
           | Some siblings \<Rightarrow>
               let closedSibs = filter (\<lambda>s. \<not> isRevealed (cellAt f s)) siblings
               in if length closedSibs = 0 then Some s
                  else let knownSafe =
                             filter (\<lambda>sib. map_option prob_value
                                              (map_of (fst s) (position (cellAt f sib))) = Some 0)
                               closedSibs
                       in if adjacentMines cell = int (length closedSibs) - int (length knownSafe)
                          then Some (setCertain f 1 closedSibs s)
                          else Some s)"

text \<open>One round of the loop over the revealed cells in \<^verbatim>\<open>inferCertainSafeCells\<close>.\<close>

definition certainSafe_step ::
  "SquareField \<Rightarrow> CellData \<Rightarrow> probabilities \<times> bool \<Rightarrow> (probabilities \<times> bool) option" where
  "certainSafe_step f cell s =
     (if isEmpty cell \<or> isMine cell then Some s
      else case getSiblings f (position cell) of
             None \<Rightarrow> None
           | Some siblings \<Rightarrow>
               let closedSibs = filter (\<lambda>s. \<not> isRevealed (cellAt f s)) siblings
               in if length closedSibs = 0 then Some s
                  else let knownMines =
                             filter (\<lambda>sib. map_option prob_value
                                              (map_of (fst s) (position (cellAt f sib))) = Some 1)
                               closedSibs
                       in if int (length knownMines) = adjacentMines cell
                          then Some (setCertain f 0 closedSibs s)
                          else Some s)"

text \<open>The loop over the cells: it stops at the first round that raises.\<close>

fun forCells ::
  "(CellData \<Rightarrow> probabilities \<times> bool \<Rightarrow> (probabilities \<times> bool) option)
     \<Rightarrow> CellData list \<Rightarrow> probabilities \<times> bool \<Rightarrow> (probabilities \<times> bool) option" where
  "forCells step [] s = Some s"
| "forCells step (cell # cells) s =
     (case step cell s of None \<Rightarrow> None | Some s' \<Rightarrow> forCells step cells s')"

definition inferCertainMines ::
  "SquareField \<Rightarrow> CellData list \<Rightarrow> probabilities \<Rightarrow> (probabilities \<times> bool) option" where
  "inferCertainMines f cells probs = forCells (certainMines_step f) cells (probs, False)"

definition inferCertainSafeCells ::
  "SquareField \<Rightarrow> CellData list \<Rightarrow> probabilities \<Rightarrow> (probabilities \<times> bool) option" where
  "inferCertainSafeCells f cells probs = forCells (certainSafe_step f) cells (probs, False)"

text \<open>
  A pass extends the map, and it reports an update only when it has added a key, which is
  the stored position of a cell of the grid.
\<close>

definition storedKeys :: "SquareField \<Rightarrow> Position set" where
  "storedKeys f = (\<lambda>q. position (cellAt f q)) ` {q. isInBoundary f q}"

definition extends :: "SquareField \<Rightarrow> probabilities \<times> bool \<Rightarrow> probabilities \<times> bool \<Rightarrow> bool" where
  "extends f s s' \<longleftrightarrow>
     fst ` set (fst s) \<subseteq> fst ` set (fst s') \<and>
     (snd s' \<longrightarrow> snd s \<or> (\<exists>k \<in> storedKeys f. k \<in> fst ` set (fst s') \<and> k \<notin> fst ` set (fst s)))"

lemma finite_storedKeys: "finite (storedKeys f)"
  unfolding storedKeys_def by (rule finite_imageI) (rule finite_boundary)

lemma extends_refl: "extends f s s"
  by (simp add: extends_def)

lemma extends_trans:
  assumes "extends f s s'" and "extends f s' s''"
  shows "extends f s s''"
proof -
  define K where "K = fst ` set (fst s)"
  define K' where "K' = fst ` set (fst s')"
  define K'' where "K'' = fst ` set (fst s'')"
  define S where "S = storedKeys f"
  have a: "K \<subseteq> K' \<and> (snd s' \<longrightarrow> snd s \<or> (\<exists>k\<in>S. k \<in> K' \<and> k \<notin> K))"
    using assms(1) unfolding extends_def K_def K'_def S_def .
  have b: "K' \<subseteq> K'' \<and> (snd s'' \<longrightarrow> snd s' \<or> (\<exists>k\<in>S. k \<in> K'' \<and> k \<notin> K'))"
    using assms(2) unfolding extends_def K'_def K''_def S_def .
  have "K \<subseteq> K'' \<and> (snd s'' \<longrightarrow> snd s \<or> (\<exists>k\<in>S. k \<in> K'' \<and> k \<notin> K))"
    using a b by blast
  then show ?thesis unfolding extends_def K_def K''_def S_def .
qed

lemma setCertain_step_keys:
  "fst ` set (fst (setCertain_step f v sib s)) = insert (position (cellAt f sib)) (fst ` set (fst s))"
proof (cases s)
  case (Pair probs updated)
  show ?thesis
  proof (cases "map_of probs (position (cellAt f sib)) = None")
    case True
    then show ?thesis unfolding Pair setCertain_step_def by (simp add: Let_def)
  next
    case False
    then have "position (cellAt f sib) \<in> fst ` set probs" by (simp add: map_of_eq_None_iff)
    then have "insert (position (cellAt f sib)) (fst ` set probs) = fst ` set probs"
      by (rule insert_absorb)
    with False show ?thesis unfolding Pair setCertain_step_def by (simp add: Let_def)
  qed
qed

lemma setCertain_step_updated:
  "snd (setCertain_step f v sib s) \<longleftrightarrow> snd s \<or> position (cellAt f sib) \<notin> fst ` set (fst s)"
proof (cases s)
  case (Pair probs updated)
  show ?thesis
  proof (cases "map_of probs (position (cellAt f sib)) = None")
    case True
    then have "position (cellAt f sib) \<notin> fst ` set probs" by (simp add: map_of_eq_None_iff)
    with True show ?thesis unfolding Pair setCertain_step_def by (simp add: Let_def)
  next
    case False
    then have "position (cellAt f sib) \<in> fst ` set probs" by (simp add: map_of_eq_None_iff)
    with False show ?thesis unfolding Pair setCertain_step_def by (simp add: Let_def)
  qed
qed

lemma setCertain_keys:
  "fst ` set (fst (setCertain f v closedSibs s)) =
     fst ` set (fst s) \<union> (\<lambda>q. position (cellAt f q)) ` set closedSibs"
  unfolding setCertain_def
  by (induction closedSibs arbitrary: s) (simp_all add: setCertain_step_keys)

lemma setCertain_updated:
  "snd (setCertain f v closedSibs s) \<longleftrightarrow>
     snd s \<or> \<not> (\<lambda>q. position (cellAt f q)) ` set closedSibs \<subseteq> fst ` set (fst s)"
  unfolding setCertain_def
proof (induction closedSibs arbitrary: s)
  case Nil
  then show ?case by simp
next
  case (Cons a closedSibs)
  let ?k = "position (cellAt f a)"
  let ?K = "(\<lambda>q. position (cellAt f q)) ` set closedSibs"
  let ?s1 = "setCertain_step f v a s"
  have ih: "snd (fold (setCertain_step f v) closedSibs ?s1)
            \<longleftrightarrow> snd ?s1 \<or> \<not> ?K \<subseteq> fst ` set (fst ?s1)"
    by (rule Cons.IH)
  have k1: "fst ` set (fst ?s1) = insert ?k (fst ` set (fst s))"
    by (rule setCertain_step_keys)
  have u1: "snd ?s1 \<longleftrightarrow> snd s \<or> ?k \<notin> fst ` set (fst s)"
    by (rule setCertain_step_updated)
  have im: "(\<lambda>q. position (cellAt f q)) ` set (a # closedSibs) = insert ?k ?K" by simp
  have "snd ?s1 \<or> \<not> ?K \<subseteq> fst ` set (fst ?s1)
        \<longleftrightarrow> snd s \<or> \<not> insert ?k ?K \<subseteq> fst ` set (fst s)"
  proof (cases "?k \<in> fst ` set (fst s)")
    case True
    then have "insert ?k (fst ` set (fst s)) = fst ` set (fst s)" by (rule insert_absorb)
    with True show ?thesis unfolding k1 u1 by simp
  next
    case False
    then show ?thesis unfolding k1 u1 by simp
  qed
  then show ?case unfolding im using ih by simp
qed

lemma setCertain_extends:
  assumes "set closedSibs \<subseteq> {q. isInBoundary f q}"
  shows "extends f s (setCertain f v closedSibs s)"
  unfolding extends_def
proof (intro conjI impI)
  show "fst ` set (fst s) \<subseteq> fst ` set (fst (setCertain f v closedSibs s))"
    unfolding setCertain_keys by (rule Un_upper1)
next
  assume "snd (setCertain f v closedSibs s)"
  then have "snd s \<or> \<not> (\<lambda>q. position (cellAt f q)) ` set closedSibs \<subseteq> fst ` set (fst s)"
    unfolding setCertain_updated .
  then show "snd s \<or> (\<exists>k\<in>storedKeys f. k \<in> fst ` set (fst (setCertain f v closedSibs s)) \<and>
                         k \<notin> fst ` set (fst s))"
  proof
    assume "snd s" then show ?thesis ..
  next
    assume "\<not> (\<lambda>q. position (cellAt f q)) ` set closedSibs \<subseteq> fst ` set (fst s)"
    then obtain q where q: "q \<in> set closedSibs" "position (cellAt f q) \<notin> fst ` set (fst s)"
      by (meson image_subset_iff)
    have "position (cellAt f q) \<in> storedKeys f"
      unfolding storedKeys_def using q(1) assms by (meson image_eqI subsetD)
    moreover have "position (cellAt f q) \<in> fst ` set (fst (setCertain f v closedSibs s))"
      unfolding setCertain_keys using q(1) by (meson UnI2 image_eqI)
    ultimately show ?thesis using q(2) by (meson)
  qed
qed

lemma certainMines_step_extends:
  assumes "certainMines_step f cell s = Some s'"
  shows "extends f s s'"
proof (cases "isEmpty cell \<or> isMine cell")
  case True
  with assms show ?thesis by (simp add: certainMines_step_def extends_refl)
next
  case False
  with assms obtain siblings where g: "getSiblings f (position cell) = Some siblings"
    by (cases "getSiblings f (position cell)") (simp_all add: certainMines_step_def)
  define closedSibs where "closedSibs = filter (\<lambda>s. \<not> isRevealed (cellAt f s)) siblings"
  have sub: "set closedSibs \<subseteq> {q. isInBoundary f q}"
    using getSiblings_boundary[OF g] by (auto simp: closedSibs_def)
  have "s' = s \<or> s' = setCertain f 1 closedSibs s"
    using assms False g unfolding certainMines_step_def closedSibs_def Let_def
    by (simp split: if_splits)
  then show ?thesis using extends_refl[of f s] setCertain_extends[OF sub, of s 1] by auto
qed

lemma certainSafe_step_extends:
  assumes "certainSafe_step f cell s = Some s'"
  shows "extends f s s'"
proof (cases "isEmpty cell \<or> isMine cell")
  case True
  with assms show ?thesis by (simp add: certainSafe_step_def extends_refl)
next
  case False
  with assms obtain siblings where g: "getSiblings f (position cell) = Some siblings"
    by (cases "getSiblings f (position cell)") (simp_all add: certainSafe_step_def)
  define closedSibs where "closedSibs = filter (\<lambda>s. \<not> isRevealed (cellAt f s)) siblings"
  have sub: "set closedSibs \<subseteq> {q. isInBoundary f q}"
    using getSiblings_boundary[OF g] by (auto simp: closedSibs_def)
  have "s' = s \<or> s' = setCertain f 0 closedSibs s"
    using assms False g unfolding certainSafe_step_def closedSibs_def Let_def
    by (simp split: if_splits)
  then show ?thesis using extends_refl[of f s] setCertain_extends[OF sub, of s 0] by auto
qed

lemma forCells_extends:
  assumes "\<And>cell s s'. step cell s = Some s' \<Longrightarrow> extends f s s'"
  shows "forCells step cells s = Some s' \<Longrightarrow> extends f s s'"
proof (induction cells arbitrary: s)
  case Nil
  then show ?case by (simp add: extends_refl)
next
  case (Cons c cells)
  then obtain s1 where s1: "step c s = Some s1" "forCells step cells s1 = Some s'"
    by (auto split: option.splits)
  show ?case using extends_trans[OF assms[OF s1(1)] Cons.IH[OF s1(2)]] .
qed

lemma pass_decreases:
  assumes "inferCertainMines f cells probs = Some (probs1, minesUpdated)"
      and "inferCertainSafeCells f cells probs1 = Some (probs2, safeUpdated)"
      and "minesUpdated \<or> safeUpdated"
  shows "card (storedKeys f - fst ` set probs2) < card (storedKeys f - fst ` set probs)"
proof -
  have e1: "extends f (probs, False) (probs1, minesUpdated)"
    using assms(1) forCells_extends[of "certainMines_step f" f] certainMines_step_extends
    unfolding inferCertainMines_def by blast
  have e2: "extends f (probs1, False) (probs2, safeUpdated)"
    using assms(2) forCells_extends[of "certainSafe_step f" f] certainSafe_step_extends
    unfolding inferCertainSafeCells_def by blast
  have sub: "fst ` set probs \<subseteq> fst ` set probs1" "fst ` set probs1 \<subseteq> fst ` set probs2"
    using e1 e2 by (simp_all add: extends_def)
  have "\<exists>k \<in> storedKeys f. k \<in> fst ` set probs2 \<and> k \<notin> fst ` set probs"
  proof (cases minesUpdated)
    case True
    then obtain k where "k \<in> storedKeys f" "k \<in> fst ` set probs1" "k \<notin> fst ` set probs"
      using e1 by (auto simp: extends_def)
    then show ?thesis using sub(2) by blast
  next
    case False
    then have safeUpdated using assms(3) by simp
    then obtain k where "k \<in> storedKeys f" "k \<in> fst ` set probs2" "k \<notin> fst ` set probs1"
      using e2 by (auto simp: extends_def)
    then show ?thesis using sub(1) by blast
  qed
  then have "storedKeys f - fst ` set probs2 \<subset> storedKeys f - fst ` set probs"
    using sub by blast
  moreover have "finite (storedKeys f - fst ` set probs)"
    using finite_storedKeys[of f] by simp
  ultimately show ?thesis by (rule psubset_card_mono[rotated])
qed


text \<open>The \<^verbatim>\<open>do ... while (changed)\<close> loop of \<^verbatim>\<open>solve\<close>.\<close>

function solve_loop :: "SquareField \<Rightarrow> CellData list \<Rightarrow> probabilities \<Rightarrow> probabilities option" where
  "solve_loop f cells probs =
     (case inferCertainMines f cells probs of
        None \<Rightarrow> None
      | Some (probs1, certainMinesFound) \<Rightarrow>
          (case inferCertainSafeCells f cells probs1 of
             None \<Rightarrow> None
           | Some (probs2, certainSafeFound) \<Rightarrow>
               if certainMinesFound \<or> certainSafeFound then solve_loop f cells probs2
               else Some probs2))"
  by pat_completeness auto
termination
proof (relation "measure (\<lambda>(f, cells, probs). card (storedKeys f - fst ` set probs))")
  show "wf (measure (\<lambda>(f, cells, probs). card (storedKeys f - fst ` set probs)))"
    by (rule wf_measure)
next
  fix f :: SquareField and cells :: "CellData list" and probs :: probabilities
    and x2 :: "probabilities \<times> bool" and probs1 :: probabilities and certainMinesFound :: bool
    and x2a :: "probabilities \<times> bool" and probs2 :: probabilities and certainSafeFound :: bool
  assume a: "inferCertainMines f cells probs = Some x2" "(probs1, certainMinesFound) = x2"
    "inferCertainSafeCells f cells probs1 = Some x2a" "(probs2, certainSafeFound) = x2a"
    "certainMinesFound \<or> certainSafeFound"
  have "card (storedKeys f - fst ` set probs2) < card (storedKeys f - fst ` set probs)"
    by (rule pass_decreases[of f cells probs probs1 certainMinesFound probs2 certainSafeFound])
       (simp_all add: a)
  then show "((f, cells, probs2), f, cells, probs)
               \<in> measure (\<lambda>(f, cells, probs). card (storedKeys f - fst ` set probs))"
    by simp
qed

definition solve :: "SquareField \<Rightarrow> MineProbability list option" where
  "solve f = map_option (map snd) (solve_loop f (revealedCells (getState f)) [])"

definition isGuessingState :: "SquareField \<Rightarrow> bool option" where
  "isGuessingState f =
     map_option (\<lambda>probs. \<not> list_ex (\<lambda>prob. prob_value prob = 0) probs) (solve f)"


section \<open>Invariants of the solver\<close>
























section \<open>The claims about the solver\<close>














end
